theory Spec2Isabelle
  imports Complex_Main "HOL-Library.FuncSet"
begin


section \<open>The dense state backend (quantumsim/dm10.py)\<close>

text \<open>
  The class \<open>Density\<close> keeps the Pauli vector of an n-qubit state in a device buffer of
  float64 numbers. The model keeps the buffer as a list of reals (the operations of interest
  only copy, clear and resize it), the Python integers as \<open>int\<close>, and every raise as a value
  of the type \<open>error\<close>. A device copy or fill that leaves its buffer is the fault
  \<open>DeviceFault\<close>. Byte counts of the source are always 8 times an element count; the model
  counts elements.
\<close>

datatype error =
    ValueError string
  | NotImplementedError string
  | IndexError
  | AttributeError
  | TypeError
  | DeviceFault

datatype dtype = Float64 | Float32 | Int64 | Complex128

text \<open>A host array as far as \<open>apply_ptm\<close> looks at it: shape, dtype and the raw bytes
  that \<open>tobytes()\<close> returns.\<close>

record ndarray =
  shape :: "nat list"
  dtype :: dtype
  tobytes :: "nat list"

text \<open>The argument \<open>data\<close> of the constructor, by the type tests of the source.\<close>

datatype init_data =
    DataNone
  | DataNdarray "nat list" "complex list"
  | DataGPUArray dtype "real list"
  | DataOther

text \<open>
  The compiled CUDA kernels of \<open>primitives.cu\<close> are not part of the sources at hand. Each
  one is a parameter: given its scalar arguments and the buffer it reads, it tells the new
  value of every cell of the buffer it writes. A kernel writes in place, so it never changes
  the length of a buffer.
\<close>

record kernels =
  k_single_qubit_ptm :: "ndarray \<Rightarrow> int \<Rightarrow> int \<Rightarrow> real list \<Rightarrow> nat \<Rightarrow> real"
  k_two_qubit_ptm :: "ndarray \<Rightarrow> int \<Rightarrow> int \<Rightarrow> int \<Rightarrow> real list \<Rightarrow> nat \<Rightarrow> real"
  k_swap :: "int \<Rightarrow> int \<Rightarrow> int \<Rightarrow> real list \<Rightarrow> nat \<Rightarrow> real"
  k_get_diag :: "int \<Rightarrow> real list \<Rightarrow> nat \<Rightarrow> real"
  k_trace :: "int \<Rightarrow> real list \<Rightarrow> nat \<Rightarrow> real"
  k_to_pauli :: "int \<Rightarrow> complex list \<Rightarrow> nat \<Rightarrow> real"

definition in_place :: "(real list \<Rightarrow> nat \<Rightarrow> real) \<Rightarrow> real list \<Rightarrow> real list" where
  "in_place k buf = map (k buf) [0..<length buf]"

record density =
  no_qubits :: int
  allocated_qubits :: int
  allocated_diag :: int
  size' :: nat
  blocksize :: nat
  gridsize :: nat
  data :: "real list"
  diag_work :: "real list option"

text \<open>The class attribute \<open>_ptm_cache\<close>, shared by all objects: from the hash of the bytes of
  a PTM to the array that was sent to the device.\<close>

type_synonym ptm_cache = "int \<rightharpoonup> ndarray"

subsection \<open>Device memory\<close>

definition memcpy_dtod :: "real list \<Rightarrow> int \<Rightarrow> real list \<Rightarrow> nat \<Rightarrow> error + real list" where
  "memcpy_dtod dst off src n =
     (if 0 \<le> off \<and> nat off + n \<le> length dst \<and> n \<le> length src
      then Inr (take (nat off) dst @ take n src @ drop (nat off + n) dst)
      else Inl DeviceFault)"

definition memset_d8 :: "real list \<Rightarrow> int \<Rightarrow> nat \<Rightarrow> error + real list" where
  "memset_d8 dst off n =
     (if 0 \<le> off \<and> nat off + n \<le> length dst
      then Inr (take (nat off) dst @ replicate n 0 @ drop (nat off + n) dst)
      else Inl DeviceFault)"

subsection \<open>The methods of \<open>Density\<close>\<close>

definition set_no_qubits :: "int \<Rightarrow> density \<Rightarrow> error + density" where
  "set_no_qubits n s =
     (if n < 0 then Inl (ValueError ''negative shift count'')
      else Inr (s\<lparr> allocated_qubits := max (allocated_qubits s) n,
                   no_qubits := n,
                   size' := 2 ^ nat (2 * n),
                   blocksize := 2 ^ 8,
                   gridsize := 2 ^ nat (max 0 (2 * n - 8)) \<rparr>))"

definition blank :: density where
  "blank = \<lparr> no_qubits = 0, allocated_qubits = 0, allocated_diag = - 1, size' = 0,
             blocksize = 0, gridsize = 0, data = [], diag_work = None \<rparr>"

definition Density :: "kernels \<Rightarrow> int \<Rightarrow> init_data \<Rightarrow> error + density" where
  "Density K n d =
     (case set_no_qubits n blank of
        Inl e \<Rightarrow> Inl e
      | Inr s \<Rightarrow>
          if n > 15 then Inl (ValueError ''way too many qubits'')
          else (case d of
              DataNdarray shp content \<Rightarrow>
                if shp \<noteq> [2 ^ nat n, 2 ^ nat n] then Inl (ValueError ''data shape is wrong'')
                else Inr (s\<lparr> data := map (k_to_pauli K n content) [0..<size' s] \<rparr>)
            | DataGPUArray dt xs \<Rightarrow>
                if length xs \<noteq> size' s then Inl (ValueError ''data size is wrong'')
                else if dt \<noteq> Float64 then Inl (ValueError ''data dtype is wrong'')
                else Inr (s\<lparr> data := xs \<rparr>)
            | DataNone \<Rightarrow> Inr (s\<lparr> data := (replicate (size' s) 0)[0 := 1] \<rparr>)
            | DataOther \<Rightarrow> Inl (ValueError ''type of data not understood'')))"

definition alloc_diag :: "density \<Rightarrow> density" where
  "alloc_diag s =
     (if allocated_diag s < no_qubits s
      then s\<lparr> diag_work := Some (replicate (2 ^ nat (no_qubits s)) 0),
              allocated_qubits := no_qubits s \<rparr>
      else s)"

definition run_get_diag :: "kernels \<Rightarrow> density \<Rightarrow> error + density" where
  "run_get_diag K s =
     (case diag_work s of
        None \<Rightarrow> Inl AttributeError
      | Some w \<Rightarrow>
          Inr (s\<lparr> diag_work := Some (map (k_get_diag K (no_qubits s) (data s)) [0..<length w]) \<rparr>))"

definition run_trace :: "kernels \<Rightarrow> int \<Rightarrow> density \<Rightarrow> error + density" where
  "run_trace K qbit s =
     (case diag_work s of
        None \<Rightarrow> Inl AttributeError
      | Some w \<Rightarrow> Inr (s\<lparr> diag_work := Some (in_place (k_trace K qbit) w) \<rparr>))"

definition trace :: "kernels \<Rightarrow> density \<Rightarrow> error + (real \<times> density)" where
  "trace K s =
     (if no_qubits s > 10 then Inl (NotImplementedError ''Trace not implemented for more than 10 qubits yet'')
      else (case run_get_diag K (alloc_diag s) of
          Inl e \<Rightarrow> Inl e
        | Inr s1 \<Rightarrow> (case run_trace K (- 1) s1 of
            Inl e \<Rightarrow> Inl e
          | Inr s2 \<Rightarrow> (case diag_work s2 of
                Some (tr0 # _) \<Rightarrow> Inr (tr0, s2)
              | _ \<Rightarrow> Inl IndexError))))"

definition get_diag :: "kernels \<Rightarrow> density \<Rightarrow> error + (real list \<times> density)" where
  "get_diag K s =
     (case run_get_diag K (alloc_diag s) of
        Inl e \<Rightarrow> Inl e
      | Inr s1 \<Rightarrow> (case diag_work s1 of
            Some w \<Rightarrow> Inr (w, s1)
          | None \<Rightarrow> Inl AttributeError))"

definition validate_bit :: "density \<Rightarrow> int \<Rightarrow> string \<Rightarrow> error + unit" where
  "validate_bit s number name =
     (if number < 0 \<or> number \<ge> no_qubits s
      then Inl (ValueError (name @ '' does not exist in the system''))
      else Inr ())"

definition validate_ptm :: "ndarray \<Rightarrow> nat list \<Rightarrow> string \<Rightarrow> error + unit" where
  "validate_ptm ptm target_shape name =
     (if shape ptm \<noteq> target_shape then Inl (ValueError (name @ '' shape is wrong''))
      else if dtype ptm \<noteq> Float64 then Inl (ValueError (name @ '' dtype is wrong''))
      else Inr ())"

definition partial_trace :: "kernels \<Rightarrow> int \<Rightarrow> density \<Rightarrow> error + ((real \<times> real) \<times> density)" where
  "partial_trace K qbit s =
     (case validate_bit s qbit ''bit'' of
        Inl e \<Rightarrow> Inl e
      | Inr _ \<Rightarrow>
          if no_qubits s > 10 then Inl (NotImplementedError ''Trace not implemented for more than 10 qubits yet'')
          else (case run_get_diag K (alloc_diag s) of
              Inl e \<Rightarrow> Inl e
            | Inr s1 \<Rightarrow> (case run_trace K qbit s1 of
                Inl e \<Rightarrow> Inl e
              | Inr s2 \<Rightarrow> (case diag_work s2 of
                    Some (tr1 # tr0 # _) \<Rightarrow> Inr ((tr0, tr1), s2)
                  | _ \<Rightarrow> Inl (ValueError ''not enough values to unpack'')))))"

text \<open>The cache lookup common to \<open>apply_ptm\<close> and \<open>apply_two_ptm\<close>: the \<open>try\<close> block.
  The parameter \<open>hash\<close> is Python's hash of a bytes object.\<close>

definition cached_ptm ::
  "(nat list \<Rightarrow> int) \<Rightarrow> nat list \<Rightarrow> ndarray \<Rightarrow> ptm_cache \<Rightarrow> error + (ndarray \<times> ptm_cache)" where
  "cached_ptm hash target_shape ptm cache =
     (let key = hash (tobytes ptm) in
      case cache key of
        Some ptm_gpu \<Rightarrow> Inr (ptm_gpu, cache)
      | None \<Rightarrow> (case validate_ptm ptm target_shape ''ptm'' of
            Inl e \<Rightarrow> Inl e
          | Inr _ \<Rightarrow> Inr (ptm, cache(key \<mapsto> ptm))))"

definition apply_two_ptm ::
  "kernels \<Rightarrow> (nat list \<Rightarrow> int) \<Rightarrow> int \<Rightarrow> int \<Rightarrow> ndarray \<Rightarrow> ptm_cache \<times> density
     \<Rightarrow> error + (ptm_cache \<times> density)" where
  "apply_two_ptm K hash bit0 bit1 ptm cs =
     (case cs of (cache, s) \<Rightarrow>
      case validate_bit s bit0 ''bit0'' of
        Inl e \<Rightarrow> Inl e
      | Inr _ \<Rightarrow> (case validate_bit s bit1 ''bit1'' of
          Inl e \<Rightarrow> Inl e
        | Inr _ \<Rightarrow> (case cached_ptm hash [16, 16] ptm cache of
            Inl e \<Rightarrow> Inl e
          | Inr (ptm_gpu, cache') \<Rightarrow>
              Inr (cache', s\<lparr> data :=
                 in_place (k_two_qubit_ptm K ptm_gpu bit0 bit1 (no_qubits s)) (data s) \<rparr>))))"

definition apply_ptm ::
  "kernels \<Rightarrow> (nat list \<Rightarrow> int) \<Rightarrow> int \<Rightarrow> ndarray \<Rightarrow> ptm_cache \<times> density
     \<Rightarrow> error + (ptm_cache \<times> density)" where
  "apply_ptm K hash qbit ptm cs =
     (case cs of (cache, s) \<Rightarrow>
      case validate_bit s qbit ''bit'' of
        Inl e \<Rightarrow> Inl e
      | Inr _ \<Rightarrow> (case cached_ptm hash [4, 4] ptm cache of
          Inl e \<Rightarrow> Inl e
        | Inr (ptm_gpu, cache') \<Rightarrow>
            Inr (cache', s\<lparr> data :=
               in_place (k_single_qubit_ptm K ptm_gpu qbit (no_qubits s)) (data s) \<rparr>)))"

definition add_ancilla :: "int \<Rightarrow> density \<Rightarrow> error + density" where
  "add_ancilla anc_st s =
     (let smaller = 2 ^ nat (2 * no_qubits s) in
      case (if allocated_qubits s = no_qubits s
            then memcpy_dtod (replicate (size' s * 4) 0) (anc_st * 3 * int smaller)
                   (data s) smaller
            else if anc_st = 0
            then memset_d8 (data s) (int smaller) (3 * smaller)
            else if anc_st = 1
            then (case memcpy_dtod (data s) (3 * int smaller) (data s) smaller of
                    Inl e \<Rightarrow> Inl e
                  | Inr d1 \<Rightarrow> memset_d8 d1 0 (3 * smaller))
            else Inr (data s)) of
        Inl e \<Rightarrow> Inl e
      | Inr d \<Rightarrow> set_no_qubits (no_qubits s + 1) (s\<lparr> data := d \<rparr>))"

definition project_measurement :: "kernels \<Rightarrow> int \<Rightarrow> int \<Rightarrow> density \<Rightarrow> error + density" where
  "project_measurement K qbit state s =
     (case validate_bit s qbit ''bit'' of
        Inl e \<Rightarrow> Inl e
      | Inr _ \<Rightarrow>
         (let s1 = (if qbit \<noteq> no_qubits s - 1
                    then s\<lparr> data := in_place (k_swap K qbit (no_qubits s - 1) (no_qubits s)) (data s) \<rparr>
                    else s);
              smaller = 2 ^ nat (2 * no_qubits s - 2)
          in case (if state = 1
                   then memcpy_dtod (data s1) 0 (drop (3 * smaller) (data s1)) smaller
                   else Inr (data s1)) of
               Inl e \<Rightarrow> Inl e
             | Inr d \<Rightarrow> set_no_qubits (no_qubits s - 1) (s1\<lparr> data := d \<rparr>)))"

definition copy :: "kernels \<Rightarrow> density \<Rightarrow> error + density" where
  "copy K s = Density K (no_qubits s) (DataGPUArray Float64 (data s))"

subsection \<open>Sequences of calls on one object\<close>

datatype call =
    Trace
  | GetDiag
  | PartialTrace int
  | ApplyPtm int ndarray
  | ApplyTwoPtm int int ndarray
  | AddAncilla int
  | ProjectMeasurement int int

fun lift_state :: "ptm_cache \<Rightarrow> error + density \<Rightarrow> error + (ptm_cache \<times> density)" where
  "lift_state c (Inl e) = Inl e"
| "lift_state c (Inr s) = Inr (c, s)"

fun drop_result :: "ptm_cache \<Rightarrow> error + ('a \<times> density) \<Rightarrow> error + (ptm_cache \<times> density)" where
  "drop_result c (Inl e) = Inl e"
| "drop_result c (Inr (r, s)) = Inr (c, s)"

fun step :: "kernels \<Rightarrow> (nat list \<Rightarrow> int) \<Rightarrow> call \<Rightarrow> ptm_cache \<times> density
     \<Rightarrow> error + (ptm_cache \<times> density)" where
  "step K h Trace (c, s) = drop_result c (trace K s)"
| "step K h GetDiag (c, s) = drop_result c (get_diag K s)"
| "step K h (PartialTrace b) (c, s) = drop_result c (partial_trace K b s)"
| "step K h (ApplyPtm b p) (c, s) = apply_ptm K h b p (c, s)"
| "step K h (ApplyTwoPtm b0 b1 p) (c, s) = apply_two_ptm K h b0 b1 p (c, s)"
| "step K h (AddAncilla a) (c, s) = lift_state c (add_ancilla a s)"
| "step K h (ProjectMeasurement b st) (c, s) = lift_state c (project_measurement K b st s)"

text \<open>Running a list of calls stops at the first raise; otherwise it returns every state
  the object went through, the first one included.\<close>

fun run_calls :: "kernels \<Rightarrow> (nat list \<Rightarrow> int) \<Rightarrow> call list \<Rightarrow> ptm_cache \<times> density
     \<Rightarrow> error + (ptm_cache \<times> density) list" where
  "run_calls K h [] cs = Inr [cs]"
| "run_calls K h (x # xs) cs =
     (case step K h x cs of
        Inl e \<Rightarrow> Inl e
      | Inr cs' \<Rightarrow> (case run_calls K h xs cs' of
            Inl e \<Rightarrow> Inl e
          | Inr l \<Rightarrow> Inr (cs # l)))"

text \<open>What every object that the constructor returned and the methods changed satisfies:
  the buffer holds at least as many cells as the largest state it was allocated for.\<close>

definition wf_density :: "density \<Rightarrow> bool" where
  "wf_density s \<longleftrightarrow> 0 \<le> no_qubits s \<and> no_qubits s \<le> allocated_qubits s
          \<and> size' s = 4 ^ nat (no_qubits s)
          \<and> 4 ^ nat (allocated_qubits s) \<le> length (data s)"

text \<open>A program: construct an object, then call methods on it, starting with an empty
  PTM cache.\<close>

definition session :: "kernels \<Rightarrow> (nat list \<Rightarrow> int) \<Rightarrow> int \<Rightarrow> init_data \<Rightarrow> call list
     \<Rightarrow> error + (ptm_cache \<times> density) list" where
  "session K h n d calls =
     (case Density K n d of
        Inl e \<Rightarrow> Inl e
      | Inr s \<Rightarrow> run_calls K h calls (Map.empty, s))"

text \<open>Kernels that leave every cell as it is, for evaluating the methods on concrete
  objects where the kernels do not matter.\<close>

definition idle_kernels :: kernels where
  "idle_kernels =
     \<lparr> k_single_qubit_ptm = (\<lambda>p b n buf i. buf ! i),
       k_two_qubit_ptm = (\<lambda>p b0 b1 n buf i. buf ! i),
       k_swap = (\<lambda>b0 b1 n buf i. buf ! i),
       k_get_diag = (\<lambda>n buf i. 0),
       k_trace = (\<lambda>b buf i. buf ! i),
       k_to_pauli = (\<lambda>n buf i. 0) \<rparr>"

text \<open>The ground state of one qubit, as \<open>Density(1)\<close> builds it.\<close>

definition ground1 :: density where
  "ground1 = \<lparr> no_qubits = 1, allocated_qubits = 1, allocated_diag = - 1, size' = 4,
               blocksize = 256, gridsize = 1, data = [1, 0, 0, 0], diag_work = None \<rparr>"


section \<open>The algebra of Kraus operators and Pauli transfer matrices (qs2/operations/algebra.py)\<close>

subsection \<open>NumPy arrays\<close>

text \<open>
  An array is its shape and its elements in row-major order. The floating-point numbers of
  NumPy are taken as exact real and complex numbers: what is proved below is the algebra of
  the contractions, not the rounding. \<open>flat_index\<close> is the row-major offset of a
  multi-index, \<open>indices\<close> lists all multi-indices of a shape in row-major order, and
  \<open>lookup\<close> reads one element (an axis of extent 1 is read at 0 whatever the index is, as
  broadcasting does).
\<close>

datatype 'a tensor = Tensor (dims: "nat list") (elems: "'a list")

fun flat_index :: "nat list \<Rightarrow> nat list \<Rightarrow> nat" where
  "flat_index (d # ds) (i # is) = i * prod_list ds + flat_index ds is"
| "flat_index _ _ = 0"

fun indices :: "nat list \<Rightarrow> nat list list" where
  "indices [] = [[]]"
| "indices (d # ds) = concat (map (\<lambda>i. map ((#) i) (indices ds)) [0..<d])"

definition bcast :: "nat \<Rightarrow> nat \<Rightarrow> nat" where
  "bcast d i = (if d = 1 then 0 else i)"

definition lookup :: "'a tensor \<Rightarrow> nat list \<Rightarrow> 'a" where
  "lookup t idx = elems t ! flat_index (dims t) (map2 bcast (dims t) idx)"

definition reshape :: "'a tensor \<Rightarrow> nat list \<Rightarrow> error + 'a tensor" where
  "reshape t new_dims =
     (if prod_list new_dims = prod_list (dims t) then Inr (Tensor new_dims (elems t))
      else Inl (ValueError ''cannot reshape array''))"

definition tmap :: "('a \<Rightarrow> 'b) \<Rightarrow> 'a tensor \<Rightarrow> 'b tensor" where
  "tmap f t = Tensor (dims t) (map f (elems t))"

subsection \<open>\<open>numpy.einsum\<close>\<close>

text \<open>
  \<open>einsum\<close> takes operands, each an array with one integer label per axis, and the labels of
  the output. The extent of a label is the extent of the axes that carry it (axes of extent 1
  broadcast). The element of the result at an assignment of the output labels is the sum,
  over all assignments of the other labels, of the product of the operands' elements.
  The model raises what NumPy raises: an IndexError for a label that is not below 52
  (NumPy maps an integer label to one of its 52 letters \<open>einsum_symbols\<close>), a ValueError
  when an operand has not as many axes as labels, when an output label is repeated or is
  no label of an operand, and when two axes with one label have different extents other
  than 1. The order of summation is by increasing label; in exact arithmetic it does not
  matter (\<open>esum_reorder\<close> below).
\<close>

type_synonym operand = "complex tensor \<times> nat list"

definition einsum_symbols :: nat where
  "einsum_symbols = 52"

definition axes :: "operand list \<Rightarrow> (nat \<times> nat) list" where
  "axes ops = concat (map (\<lambda>(t, ls). zip ls (dims t)) ops)"

definition label_dim :: "(nat \<times> nat) list \<Rightarrow> nat \<Rightarrow> nat" where
  "label_dim ax l =
     (case filter (\<lambda>d. d \<noteq> 1) (map snd (filter (\<lambda>p. fst p = l) ax)) of
        [] \<Rightarrow> 1
      | d # _ \<Rightarrow> d)"

fun esum :: "(nat \<times> nat) list \<Rightarrow> ((nat \<Rightarrow> nat) \<Rightarrow> complex) \<Rightarrow> (nat \<Rightarrow> nat) \<Rightarrow> complex" where
  "esum [] body env = body env"
| "esum ((l, d) # ls) body env = (\<Sum>v<d. esum ls body (env(l := v)))"

definition env_of :: "nat list \<Rightarrow> nat list \<Rightarrow> nat \<Rightarrow> nat" where
  "env_of labels vals = (\<lambda>l. case map_of (zip labels vals) l of Some v \<Rightarrow> v | None \<Rightarrow> 0)"

definition term_of :: "operand list \<Rightarrow> (nat \<Rightarrow> nat) \<Rightarrow> complex" where
  "term_of ops env = prod_list (map (\<lambda>(t, ls). lookup t (map env ls)) ops)"

definition einsum :: "operand list \<Rightarrow> nat list \<Rightarrow> error + complex tensor" where
  "einsum ops out =
     (let ax = axes ops;
          labels = sort (remdups (map fst ax));
          summed = filter (\<lambda>l. l \<notin> set out) labels
      in if \<exists>l \<in> set (concat (map snd ops) @ out). einsum_symbols \<le> l then Inl IndexError
         else if \<exists>(t, ls) \<in> set ops. length ls \<noteq> length (dims t)
           then Inl (ValueError ''operand does not have as many dimensions as subscripts'')
         else if \<not> distinct out \<or> \<not> set out \<subseteq> set labels
           then Inl (ValueError ''invalid output subscripts'')
         else if \<exists>(l, d) \<in> set ax. d \<noteq> 1 \<and> d \<noteq> label_dim ax l
           then Inl (ValueError ''Size of label does not match previous terms'')
         else Inr (Tensor (map (label_dim ax) out)
                 (map (\<lambda>vals. esum (map (\<lambda>l. (l, label_dim ax l)) summed) (term_of ops)
                                 (env_of out vals))
                      (indices (map (label_dim ax) out)))))"

subsection \<open>Bases\<close>

text \<open>
  The class \<open>Basis\<close> is not among the sources at hand; the functions below read its fields
  \<open>dim_hilbert\<close>, \<open>dim_pauli\<close> and \<open>vectors\<close> (an array of shape
  \<open>(dim_pauli, dim_hilbert, dim_hilbert)\<close>).
\<close>

record basis =
  dim_hilbert :: nat
  dim_pauli :: nat
  vectors :: "complex tensor"

subsection \<open>\<open>kraus_to_ptm\<close>\<close>

text \<open>
  \<open>einsum_args\<close> is the list of that name the source builds: the output bases with labels
  \<open>[4 nq + i, 2 i, 2 i + 1]\<close>, the reshaped Kraus stack with labels
  \<open>[6 nq, 1, 3, 5, \<dots>]\<close>, the input bases with labels
  \<open>[5 nq + i, 2 (i + nq) + 1, 2 (i + nq)]\<close>, and the conjugated Kraus stack with labels
  \<open>[6 nq, 0, 2, 4, \<dots>]\<close>. \<open>bases_in[0]\<close> on an empty tuple and \<open>kraus.shape[0]\<close> on
  an array without axes raise IndexError; \<open>reshape\<close> raises ValueError when the sizes differ.
\<close>

definition einsum_args :: "nat \<Rightarrow> complex tensor \<Rightarrow> basis list \<Rightarrow> basis list \<Rightarrow> operand list" where
  "einsum_args nq kraus bases_in bases_out =
     map (\<lambda>(i, b). (vectors b, [4 * nq + i, 2 * i, 2 * i + 1])) (enumerate 0 bases_out)
     @ [(kraus, (6 * nq) # map (\<lambda>i. 2 * i + 1) [0..<2 * nq])]
     @ map (\<lambda>(i, b). (vectors b, [5 * nq + i, 2 * (i + nq) + 1, 2 * (i + nq)]))
         (enumerate 0 bases_in)
     @ [(tmap cnj kraus, (6 * nq) # map (\<lambda>i. 2 * i) [0..<2 * nq])]"

definition kraus_to_ptm :: "complex tensor \<Rightarrow> basis list \<Rightarrow> basis list \<Rightarrow> error + real tensor" where
  "kraus_to_ptm kraus bases_in bases_out =
     (case bases_in of
        [] \<Rightarrow> Inl IndexError
      | b0 # _ \<Rightarrow>
         (let dim = dim_hilbert b0; nq = length bases_in in
          if nq \<noteq> length bases_out
          then Inl (ValueError ''Input and output bases must contain the same number of elements'')
          else (case dims kraus of
              [] \<Rightarrow> Inl IndexError
            | m # _ \<Rightarrow> (case reshape kraus (m # replicate (2 * nq) dim) of
                Inl e \<Rightarrow> Inl e
              | Inr kraus' \<Rightarrow>
                  map_sum id (tmap Re)
                    (einsum (einsum_args nq kraus' bases_in bases_out)
                       (map (\<lambda>i. 4 * nq + i) [0..<2 * nq]))))))"

text \<open>
  \<open>single_kraus_to_ptm\<close> calls \<open>einsum\<close> with the subscript string
  \<open>"xab, zbc, ycd, zad -> xy"\<close>; \<open>sym\<close> is the position of a lower-case letter in the
  alphabet, the integer label NumPy uses for it.
\<close>

definition sym :: "char \<Rightarrow> nat" where
  "sym c = of_char c - 97"

definition single_kraus_to_ptm :: "complex tensor \<Rightarrow> basis \<Rightarrow> basis \<Rightarrow> error + real tensor" where
  "single_kraus_to_ptm kraus basis_in basis_out =
     map_sum id (tmap Re)
       (einsum [(vectors basis_out, map sym ''xab''), (kraus, map sym ''zbc''),
                (vectors basis_in, map sym ''ycd''), (tmap cnj kraus, map sym ''zad'')]
               (map sym ''xy''))"

subsection \<open>\<open>ptm_convert_basis\<close>\<close>

text \<open>
  \<open>kron\<close> is \<open>numpy.kron\<close>: the shorter shape is padded with ones in front, the extents
  are multiplied axis by axis, and the element at an index is the product of the elements
  at its quotients and at its remainders by the extents of the second array.
  \<open>bases_kron\<close> folds it over the vectors of a tuple of bases; \<open>reduce\<close> on an empty list
  raises TypeError. \<open>ptm_convert_basis\<close> evaluates its five operands in the order of the
  call, contracts them with the subscripts \<open>"xij, yji, yz, zkl, wlk -> xw"\<close>, takes the
  real part and reshapes.
\<close>

definition kron :: "complex tensor \<Rightarrow> complex tensor \<Rightarrow> complex tensor" where
  "kron a b =
     (let nd = max (length (dims a)) (length (dims b));
          da = replicate (nd - length (dims a)) 1 @ dims a;
          db = replicate (nd - length (dims b)) 1 @ dims b;
          ds = map2 (*) da db
      in Tensor ds
           (map (\<lambda>idx. lookup (Tensor da (elems a)) (map2 (div) idx db)
                       * lookup (Tensor db (elems b)) (map2 (mod) idx db))
                (indices ds)))"

definition bases_kron :: "basis list \<Rightarrow> error + complex tensor" where
  "bases_kron bases =
     (case map vectors bases of
        [] \<Rightarrow> Inl TypeError
      | v # vs \<Rightarrow> Inr (foldl kron v vs))"

definition ptm_convert_basis ::
  "real tensor \<Rightarrow> basis list \<Rightarrow> basis list \<Rightarrow> basis list \<Rightarrow> basis list \<Rightarrow> error + real tensor" where
  "ptm_convert_basis ptm bi_old bo_old bi_new bo_new =
     (let shape = map dim_pauli (rev bo_new @ rev bi_new);
          d_in = prod_list (map dim_pauli bi_old);
          d_out = prod_list (map dim_pauli bo_old)
      in case bases_kron bo_new of Inl e \<Rightarrow> Inl e | Inr kron_bo_new \<Rightarrow>
         (case bases_kron bo_old of Inl e \<Rightarrow> Inl e | Inr kron_bo_old \<Rightarrow>
         (case reshape ptm [d_out, d_in] of Inl e \<Rightarrow> Inl e | Inr ptm2 \<Rightarrow>
         (case bases_kron bi_old of Inl e \<Rightarrow> Inl e | Inr kron_bi_old \<Rightarrow>
         (case bases_kron bi_new of Inl e \<Rightarrow> Inl e | Inr kron_bi_new \<Rightarrow>
         (case einsum [(kron_bo_new, map sym ''xij''), (kron_bo_old, map sym ''yji''),
                       (tmap complex_of_real ptm2, map sym ''yz''),
                       (kron_bi_old, map sym ''zkl''), (kron_bi_new, map sym ''wlk'')]
                      (map sym ''xw'') of
            Inl e \<Rightarrow> Inl e
          | Inr r \<Rightarrow> reshape (tmap Re r) shape))))))"

subsection \<open>Amplitude damping (quantumsim/operations/qubits.py)\<close>

text \<open>
  Modelled from the spec: \<open>bases.gell_mann(2)\<close>; the module \<open>bases\<close> is not among the sources
  at hand. The spec calls it the identity plus the Pauli generators, with the normalized
  identity first and orthonormal under \<open>Tr(A\<^sup>\<dagger> B)\<close>; \<open>qubits.py\<close> names its four vectors
  I, X, Y, Z in this order. So the vectors are the Pauli matrices divided by \<open>sqrt 2\<close>.
\<close>

definition gell_mann2 :: basis where
  "gell_mann2 =
     (let c = complex_of_real (1 / sqrt 2) in
      \<lparr> dim_hilbert = 2, dim_pauli = 4,
        vectors = Tensor [4, 2, 2]
          [c, 0, 0, c,
           0, c, c, 0,
           0, - \<i> * c, \<i> * c, 0,
           c, 0, 0, - c] \<rparr>)"

text \<open>
  The class \<open>Operation\<close> is not among the sources either: an operation is kept as what its
  constructor was given. \<open>bases1_default\<close>, the tuple \<open>(bases.general(2),)\<close> of the module,
  is a parameter of \<open>amp_damping\<close>. \<open>np.sqrt\<close> is the real square root; the rates of
  interest are between 0 and 1.
\<close>

datatype operation =
    from_kraus "complex tensor" "basis list"
  | from_ptm "real tensor" "basis list"

definition amp_damping ::
  "basis list \<Rightarrow> real option \<Rightarrow> real option \<Rightarrow> real option \<Rightarrow> error + operation" where
  "amp_damping bases1_default total_rate exc_rate damp_rate =
     (case total_rate of
        Some r \<Rightarrow>
          Inr (from_kraus
                 (Tensor [2, 2, 2]
                    [1, 0, 0, complex_of_real (sqrt (1 - r)),
                     0, complex_of_real (sqrt r), 0, 0])
                 bases1_default)
      | None \<Rightarrow>
          (case (exc_rate, damp_rate) of
             (Some e, Some dr) \<Rightarrow>
               (let comb_rate = e + dr in
                Inr (from_ptm
                       (Tensor [4, 4]
                          [1, 0, 0, 0,
                           0, sqrt (1 - comb_rate), 0, 0,
                           0, 0, sqrt (1 - comb_rate), 0,
                           2 * dr - comb_rate, 0, 0, 1 - comb_rate])
                       [gell_mann2]))
           | _ \<Rightarrow> Inl (ValueError
               ''Either the total_rate or both the exc_rate and damp_rate must be provided'')))"

section \<open>Notions for stating and proving the properties of the algebra\<close>

subsection \<open>Sums over blocks of labels\<close>

text \<open>
  \<open>digits d k p\<close> are the \<open>k\<close> digits of \<open>p\<close> in base \<open>d\<close>, most significant first;
  \<open>assign\<close> binds a list of labels to a list of values; \<open>override\<close> replaces an environment
  on a set of labels.
\<close>

definition override :: "nat set \<Rightarrow> (nat \<Rightarrow> nat) \<Rightarrow> (nat \<Rightarrow> nat) \<Rightarrow> nat \<Rightarrow> nat" where
  "override S f env = (\<lambda>l. if l \<in> S then f l else env l)"

fun digits :: "nat \<Rightarrow> nat \<Rightarrow> nat \<Rightarrow> nat list" where
  "digits d 0 p = []"
| "digits d (Suc k) p = (p div d ^ k) # digits d k (p mod d ^ k)"

fun assign :: "nat list \<Rightarrow> nat list \<Rightarrow> (nat \<Rightarrow> nat) \<Rightarrow> nat \<Rightarrow> nat" where
  "assign (l # ls) (v # vs) env = assign ls vs (env(l := v))"
| "assign _ _ env = env"

text \<open>
  The extent of each label of \<open>einsum_args\<close> when all bases have Hilbert dimension \<open>d\<close>,
  the Kraus stack holds \<open>m\<close> operators, and the output and summed labels of the call.
\<close>

definition ldim :: "nat \<Rightarrow> nat \<Rightarrow> nat \<Rightarrow> basis list \<Rightarrow> basis list \<Rightarrow> nat \<Rightarrow> nat" where
  "ldim n d m bases_in bases_out l =
     (if l < 4 * n then d
      else if l < 5 * n then dim_pauli (bases_out ! (l - 4 * n))
      else if l < 6 * n then dim_pauli (bases_in ! (l - 5 * n))
      else m)"

text \<open>A basis of Hilbert dimension \<open>d\<close> whose array of vectors has the shape its fields say.\<close>

definition basis_ok :: "nat \<Rightarrow> basis \<Rightarrow> bool" where
  "basis_ok d b \<longleftrightarrow> dim_hilbert b = d \<and> dims (vectors b) = [dim_pauli b, d, d]"

definition out_labels :: "nat \<Rightarrow> nat list" where
  "out_labels n = map (\<lambda>i. 4 * n + i) [0..<2 * n]"

definition summed_labels :: "nat \<Rightarrow> complex tensor \<Rightarrow> basis list \<Rightarrow> basis list \<Rightarrow> nat list" where
  "summed_labels n kraus bases_in bases_out =
     filter (\<lambda>l. l \<notin> set (out_labels n))
       (sort (remdups (map fst (axes (einsum_args n kraus bases_in bases_out)))))"

text \<open>
  The summed labels in four blocks: \<open>labs_a\<close> and \<open>labs_b\<close> are the row and column labels
  of the output basis elements, \<open>labs_c\<close> and \<open>labs_e\<close> the row and column labels of the input
  basis elements. \<open>env5\<close> binds the Kraus label to \<open>z\<close> and each block to the digits of
  one number below \<open>d ^ n\<close>.
\<close>

definition labs_a :: "nat \<Rightarrow> nat list" where "labs_a n = map (\<lambda>i. 2 * i) [0..<n]"

definition labs_b :: "nat \<Rightarrow> nat list" where "labs_b n = map (\<lambda>i. 2 * i + 1) [0..<n]"

definition labs_c :: "nat \<Rightarrow> nat list" where "labs_c n = map (\<lambda>i. 2 * (i + n) + 1) [0..<n]"

definition labs_e :: "nat \<Rightarrow> nat list" where "labs_e n = map (\<lambda>i. 2 * (i + n)) [0..<n]"

definition env5 :: "nat \<Rightarrow> nat \<Rightarrow> nat \<Rightarrow> nat \<Rightarrow> nat \<Rightarrow> nat \<Rightarrow> nat \<Rightarrow> (nat \<Rightarrow> nat) \<Rightarrow> nat \<Rightarrow> nat" where
  "env5 n d z pa pb pc pe env =
     assign (labs_e n) (digits d n pe) (assign (labs_c n) (digits d n pc)
       (assign (labs_b n) (digits d n pb) (assign (labs_a n) (digits d n pa) (env(6 * n := z)))))"

subsection \<open>Matrices\<close>

text \<open>
  A matrix is a function of a row and a column. \<open>basis_op b x\<close> is the element \<open>x\<close> of
  the basis \<open>b\<close>, \<open>kraus_op kraus z\<close> the operator \<open>z\<close> of a Kraus stack of shape
  \<open>(m, D, D)\<close>, \<open>kron_list\<close> the Kronecker product of a list of \<open>d\<close> by \<open>d\<close> matrices
  (the first factor is the most significant one), and \<open>tensor_op d bs xs\<close> the operator
  \<open>B[x]\<close> of a tuple of bases at a multi-index. \<open>ptm_sum m D B_out K B_in\<close> is the sum over
  \<open>z < m\<close> of \<open>Tr(B_out K\<^sub>z B_in K\<^sub>z\<^sup>\<dagger>)\<close>.
\<close>

definition basis_op :: "basis \<Rightarrow> nat \<Rightarrow> nat \<Rightarrow> nat \<Rightarrow> complex" where
  "basis_op b x i j = lookup (vectors b) [x, i, j]"

definition kraus_op :: "complex tensor \<Rightarrow> nat \<Rightarrow> nat \<Rightarrow> nat \<Rightarrow> complex" where
  "kraus_op kraus z i j = lookup kraus [z, i, j]"

fun kron_list :: "nat \<Rightarrow> (nat \<Rightarrow> nat \<Rightarrow> complex) list \<Rightarrow> nat \<Rightarrow> nat \<Rightarrow> complex" where
  "kron_list d [] i j = 1"
| "kron_list d (A # As) i j =
     A (i div d ^ length As) (j div d ^ length As)
       * kron_list d As (i mod d ^ length As) (j mod d ^ length As)"

definition tensor_op :: "nat \<Rightarrow> basis list \<Rightarrow> nat list \<Rightarrow> nat \<Rightarrow> nat \<Rightarrow> complex" where
  "tensor_op d bs xs = kron_list d (map2 basis_op bs xs)"

definition mat_mul :: "nat \<Rightarrow> (nat \<Rightarrow> nat \<Rightarrow> complex) \<Rightarrow> (nat \<Rightarrow> nat \<Rightarrow> complex) \<Rightarrow> nat \<Rightarrow> nat \<Rightarrow> complex" where
  "mat_mul D A B i j = (\<Sum>k<D. A i k * B k j)"

definition dagger :: "(nat \<Rightarrow> nat \<Rightarrow> complex) \<Rightarrow> nat \<Rightarrow> nat \<Rightarrow> complex" where
  "dagger A i j = cnj (A j i)"

definition tr :: "nat \<Rightarrow> (nat \<Rightarrow> nat \<Rightarrow> complex) \<Rightarrow> complex" where
  "tr D A = (\<Sum>i<D. A i i)"

text \<open>A stack of \<open>m\<close> Kraus operators of side \<open>D\<close> with all its elements.\<close>

definition kraus_ok :: "nat \<Rightarrow> nat \<Rightarrow> complex tensor \<Rightarrow> bool" where
  "kraus_ok m D kraus \<longleftrightarrow> dims kraus = [m, D, D] \<and> length (elems kraus) = m * D * D"

definition ptm_sum :: "nat \<Rightarrow> nat \<Rightarrow> (nat \<Rightarrow> nat \<Rightarrow> complex) \<Rightarrow> (nat \<Rightarrow> nat \<Rightarrow> nat \<Rightarrow> complex)
     \<Rightarrow> (nat \<Rightarrow> nat \<Rightarrow> complex) \<Rightarrow> complex" where
  "ptm_sum m D B_out K B_in =
     (\<Sum>z<m. tr D (mat_mul D B_out (mat_mul D (K z) (mat_mul D B_in (dagger (K z))))))"

subsection \<open>What the data model says of bases and channels\<close>

text \<open>
  The elements of a basis are Hermitian and orthonormal under the inner product
  \<open>Tr(A\<^sup>\<dagger> B)\<close>; \<open>identity_first\<close> says that the first element is the identity divided by
  \<open>sqrt d\<close>. A Kraus stack is trace preserving when the sum of \<open>K\<^sub>z\<^sup>\<dagger> K\<^sub>z\<close> is the identity.
\<close>

definition hermitian :: "nat \<Rightarrow> (nat \<Rightarrow> nat \<Rightarrow> complex) \<Rightarrow> bool" where
  "hermitian D A \<longleftrightarrow> (\<forall>i<D. \<forall>j<D. A j i = cnj (A i j))"

definition hermitian_basis :: "nat \<Rightarrow> basis \<Rightarrow> bool" where
  "hermitian_basis d b \<longleftrightarrow> (\<forall>x<dim_pauli b. hermitian d (basis_op b x))"

definition orthonormal_basis :: "nat \<Rightarrow> basis \<Rightarrow> bool" where
  "orthonormal_basis d b \<longleftrightarrow>
     (\<forall>x<dim_pauli b. \<forall>y<dim_pauli b.
        tr d (mat_mul d (dagger (basis_op b x)) (basis_op b y)) = (if x = y then 1 else 0))"

definition identity_first :: "nat \<Rightarrow> basis \<Rightarrow> bool" where
  "identity_first d b \<longleftrightarrow>
     0 < dim_pauli b \<and>
     (\<forall>i<d. \<forall>j<d. basis_op b 0 i j = (if i = j then complex_of_real (1 / sqrt (real d)) else 0))"

definition trace_preserving :: "nat \<Rightarrow> nat \<Rightarrow> (nat \<Rightarrow> nat \<Rightarrow> nat \<Rightarrow> complex) \<Rightarrow> bool" where
  "trace_preserving m D K \<longleftrightarrow>
     (\<forall>i<D. \<forall>j<D. (\<Sum>z<m. mat_mul D (dagger (K z)) (K z) i j) = (if i = j then 1 else 0))"

subsection \<open>Concrete bases and Kraus stacks\<close>

text \<open>
  The diagonal (computational) elements of a qubit and of a qutrit, the basis of a
  one-dimensional space, and the stack that holds the identity alone.
\<close>

definition qubit_diag :: basis where
  "qubit_diag = \<lparr> dim_hilbert = 2, dim_pauli = 2,
      vectors = Tensor [2, 2, 2] [1, 0, 0, 0,  0, 0, 0, 1] \<rparr>"

definition qutrit_diag :: basis where
  "qutrit_diag = \<lparr> dim_hilbert = 3, dim_pauli = 3,
      vectors = Tensor [3, 3, 3] [1, 0, 0, 0, 0, 0, 0, 0, 0,
                                  0, 0, 0, 0, 1, 0, 0, 0, 0,
                                  0, 0, 0, 0, 0, 0, 0, 0, 1] \<rparr>"

text \<open>
  The diagonal elements of a Gell-Mann basis of a qutrit: the identity divided by
  \<open>sqrt 3\<close>, then \<open>diag(1, -1, 0) / sqrt 2\<close> and \<open>diag(1, 1, -2) / sqrt 6\<close>.
\<close>

definition qutrit_gm_diag :: basis where
  "qutrit_gm_diag =
     (let a = complex_of_real (1 / sqrt 3); b = complex_of_real (1 / sqrt 2);
          c = complex_of_real (1 / sqrt 6) in
      \<lparr> dim_hilbert = 3, dim_pauli = 3,
        vectors = Tensor [3, 3, 3]
          [a, 0, 0, 0, a, 0, 0, 0, a,
           b, 0, 0, 0, - b, 0, 0, 0, 0,
           c, 0, 0, 0, c, 0, 0, 0, - 2 * c] \<rparr>)"

definition trivial_basis :: basis where
  "trivial_basis = \<lparr> dim_hilbert = 1, dim_pauli = 1, vectors = Tensor [1, 1, 1] [1] \<rparr>"

definition identity_kraus :: "nat \<Rightarrow> complex tensor" where
  "identity_kraus D = Tensor [1, D, D] (map (\<lambda>k. if k div D = k mod D then 1 else 0) [0..<D * D])"

definition damp_kraus :: "complex tensor" where
  "damp_kraus = Tensor [2, 2, 2]
                    [1, 0, 0, complex_of_real (sqrt (1 - 1 / 2)),
                     0, complex_of_real (sqrt (1 / 2)), 0, 0]"

definition pauli_x :: "complex tensor" where
  "pauli_x = Tensor [1, 2, 2] [0, 1, 1, 0]"


section \<open>Properties of the state backend\<close>

subsection \<open>Powers of four\<close>

lemma pow4: "(2::nat) ^ nat (2 * n) = 4 ^ nat n" if "0 \<le> n"
proof -
  have "nat (2 * n) = 2 * nat n" using that by simp
  then show ?thesis by (simp add: power_mult)
qed

lemma pow4_mono: "a \<le> b \<Longrightarrow> (4::nat) ^ nat a \<le> 4 ^ nat b"
  by (rule power_increasing) auto

lemma pow4_Suc: "0 \<le> n \<Longrightarrow> (4::nat) ^ nat (n + 1) = 4 * 4 ^ nat n"
  by (simp add: nat_add_distrib)

lemma upt_2: "[0..<2] = [0, Suc 0]"
  by (simp add: numeral_2_eq_2)

subsection \<open>Every object a program can hold is well formed\<close>

lemma set_no_qubits_fields:
  assumes "set_no_qubits n s = Inr s'"
  shows "0 \<le> n" "no_qubits s' = n" "allocated_qubits s' = max (allocated_qubits s) n"
    "size' s' = 4 ^ nat n" "data s' = data s" "diag_work s' = diag_work s"
    "allocated_diag s' = allocated_diag s"
  using assms by (auto simp: set_no_qubits_def pow4 split: if_splits)

lemma set_no_qubits_wf:
  assumes "set_no_qubits n s = Inr s'" "4 ^ nat (max (allocated_qubits s) n) \<le> length (data s)"
  shows "wf_density s'"
  using set_no_qubits_fields[OF assms(1)] assms(2) by (simp add: wf_density_def)

lemma Density_wf: "Density K n d = Inr s \<Longrightarrow> wf_density s"
  by (auto simp: Density_def set_no_qubits_def blank_def wf_density_def pow4
      split: if_splits init_data.splits sum.splits)

lemma wf_density_size: "wf_density s \<Longrightarrow> 4 ^ nat (no_qubits s) \<le> length (data s)"
  using pow4_mono[of "no_qubits s" "allocated_qubits s"] unfolding wf_density_def by linarith

lemma alloc_diag_wf: "wf_density s \<Longrightarrow> wf_density (alloc_diag s)"
  using wf_density_size[of s]
  by (auto simp: alloc_diag_def wf_density_def)

lemma run_get_diag_wf: "wf_density s \<Longrightarrow> run_get_diag K s = Inr s' \<Longrightarrow> wf_density s'"
  by (auto simp: run_get_diag_def wf_density_def split: option.splits)

lemma run_trace_wf: "wf_density s \<Longrightarrow> run_trace K b s = Inr s' \<Longrightarrow> wf_density s'"
  by (auto simp: run_trace_def wf_density_def split: option.splits)

lemma trace_wf: "wf_density s \<Longrightarrow> trace K s = Inr (r, s') \<Longrightarrow> wf_density s'"
  by (auto simp: trace_def split: if_splits sum.splits option.splits list.splits
      dest!: run_trace_wf[rotated] run_get_diag_wf[rotated] intro: alloc_diag_wf)

lemma get_diag_wf: "wf_density s \<Longrightarrow> get_diag K s = Inr (r, s') \<Longrightarrow> wf_density s'"
  by (auto simp: get_diag_def split: if_splits sum.splits option.splits list.splits
      dest!: run_get_diag_wf[rotated] intro: alloc_diag_wf)

lemma partial_trace_wf: "wf_density s \<Longrightarrow> partial_trace K b s = Inr (r, s') \<Longrightarrow> wf_density s'"
  by (auto simp: partial_trace_def split: if_splits sum.splits option.splits list.splits
      dest!: run_trace_wf[rotated] run_get_diag_wf[rotated] intro: alloc_diag_wf)

lemma apply_ptm_wf:
  "wf_density s \<Longrightarrow> apply_ptm K h b p (c, s) = Inr (c', s') \<Longrightarrow> wf_density s'"
  by (auto simp: apply_ptm_def wf_density_def in_place_def split: sum.splits)

lemma apply_two_ptm_wf:
  "wf_density s \<Longrightarrow> apply_two_ptm K h b0 b1 p (c, s) = Inr (c', s') \<Longrightarrow> wf_density s'"
  by (auto simp: apply_two_ptm_def wf_density_def in_place_def split: sum.splits)

lemma memcpy_dtod_length: "memcpy_dtod dst off src n = Inr d \<Longrightarrow> length d = length dst"
  by (auto simp: memcpy_dtod_def split: if_splits)

lemma memset_d8_length: "memset_d8 dst off n = Inr d \<Longrightarrow> length d = length dst"
  by (auto simp: memset_d8_def split: if_splits)

lemma add_ancilla_wf:
  assumes "wf_density s" "add_ancilla a s = Inr s'"
  shows "wf_density s'"
proof -
  let ?n = "no_qubits s"
  from assms(1) have n0: "0 \<le> ?n" and le: "?n \<le> allocated_qubits s"
    and sz: "size' s = 4 ^ nat ?n" and len: "4 ^ nat (allocated_qubits s) \<le> length (data s)"
    by (auto simp: wf_density_def)
  from assms(2) obtain d where
    d: "(if allocated_qubits s = ?n
            then memcpy_dtod (replicate (size' s * 4) 0) (a * 3 * int (2 ^ nat (2 * ?n)))
                   (data s) (2 ^ nat (2 * ?n))
            else if a = 0
            then memset_d8 (data s) (int (2 ^ nat (2 * ?n))) (3 * 2 ^ nat (2 * ?n))
            else if a = 1
            then (case memcpy_dtod (data s) (3 * int (2 ^ nat (2 * ?n))) (data s) (2 ^ nat (2 * ?n)) of
                    Inl e \<Rightarrow> Inl e
                  | Inr d1 \<Rightarrow> memset_d8 d1 0 (3 * 2 ^ nat (2 * ?n)))
            else Inr (data s)) = Inr d"
    and s': "set_no_qubits (?n + 1) (s\<lparr> data := d \<rparr>) = Inr s'"
    by (auto simp: add_ancilla_def Let_def split: sum.splits)
  show ?thesis
  proof (cases "allocated_qubits s = ?n")
    case True
    with d have "length d = 4 * 4 ^ nat ?n"
      using sz by (auto dest: memcpy_dtod_length)
    with True n0 show ?thesis
      by (intro set_no_qubits_wf[OF s']) (simp add: pow4_Suc max_def)
  next
    case False
    with le have le': "?n + 1 \<le> allocated_qubits s" by simp
    from False d have "length d = length (data s)"
      by (auto split: if_splits sum.splits dest!: memcpy_dtod_length memset_d8_length)
    with le' len show ?thesis
      by (intro set_no_qubits_wf[OF s']) (simp add: max_def)
  qed
qed

lemma project_measurement_wf:
  assumes "wf_density s" "project_measurement K b st s = Inr s'"
  shows "wf_density s'"
proof -
  from assms(2) obtain d s1 where
    s': "set_no_qubits (no_qubits s - 1) (s1\<lparr> data := d \<rparr>) = Inr s'"
    and a: "allocated_qubits s1 = allocated_qubits s" and l: "length d = length (data s)"
    by (auto simp: project_measurement_def Let_def in_place_def
        split: sum.splits if_splits dest: memcpy_dtod_length)
  from assms(1) have "max (allocated_qubits s) (no_qubits s - 1) = allocated_qubits s"
    by (auto simp: wf_density_def)
  with assms(1) a l show ?thesis
    by (intro set_no_qubits_wf[OF s']) (simp add: wf_density_def)
qed

lemma step_wf:
  assumes "wf_density (snd cs)" "step K h x cs = Inr cs'"
  shows "wf_density (snd cs')"
proof -
  obtain c s where cs: "cs = (c, s)" by (cases cs)
  obtain c' s' where cs': "cs' = (c', s')" by (cases cs')
  from assms show ?thesis unfolding cs cs'
    by (cases x)
       (auto dest: trace_wf get_diag_wf partial_trace_wf apply_ptm_wf apply_two_ptm_wf
          add_ancilla_wf project_measurement_wf elim!: lift_state.elims drop_result.elims)
qed

lemma run_calls_wf:
  "wf_density (snd cs) \<Longrightarrow> run_calls K h xs cs = Inr l \<Longrightarrow> \<forall>t \<in> set l. wf_density (snd t)"
proof (induction xs arbitrary: cs l)
  case Nil
  then show ?case by auto
next
  case (Cons x xs)
  from Cons.prems(2) obtain cs' l' where st: "step K h x cs = Inr cs'"
    and r: "run_calls K h xs cs' = Inr l'" and l: "l = cs # l'"
    by (auto split: sum.splits)
  from step_wf[OF Cons.prems(1) st] have "wf_density (snd cs')" .
  from Cons.IH[OF this r] Cons.prems(1) l show ?case by simp
qed

lemma session_wf:
  assumes "session K h n d calls = Inr l" "t \<in> set l"
  shows "wf_density (snd t)"
proof -
  from assms(1) obtain s where s: "Density K n d = Inr s"
    and r: "run_calls K h calls (Map.empty, s) = Inr l"
    by (auto simp: session_def split: sum.splits)
  from Density_wf[OF s] have "wf_density (snd (Map.empty :: ptm_cache, s))" by simp
  from run_calls_wf[OF this r] assms(2) show ?thesis by blast
qed

lemma ground1_wf: "wf_density ground1"
  by (simp add: wf_density_def ground1_def)

lemma replicate_4: "replicate 4 x = [x, x, x, x]"
  by (simp add: eval_nat_numeral)

lemma Density_ground1: "Density K 1 DataNone = Inr ground1"
  by (simp add: Density_def set_no_qubits_def blank_def ground1_def replicate_4)

subsection \<open>Validation of the PTM argument and the cache\<close>

text \<open>
  Claim C6. Every call of \<open>apply_ptm\<close> and \<open>apply_two_ptm\<close> is said to raise a
  ValueError when the PTM has the wrong shape or dtype, also when a PTM with the same bytes
  is already in the cache. The source validates the PTM only in the \<open>except KeyError\<close>
  branch, and the key is the hash of the bytes alone. The cache is a class attribute that
  both methods share, so a 16 by 16 PTM that \<open>apply_two_ptm\<close> has stored is afterwards
  accepted by \<open>apply_ptm\<close>, whatever the hash function and the kernels are; on a fresh
  cache the same call raises. The theorem evaluates both programs on two qubits.
\<close>

theorem apply_ptm_skips_validation_on_cache_hit:
  "map_sum id (map (no_qubits \<circ> snd))
     (session K h 2 DataNone
        [ApplyTwoPtm 0 1 \<lparr>shape = [16, 16], dtype = Float64, tobytes = bs\<rparr>,
         ApplyPtm 0 \<lparr>shape = [16, 16], dtype = Float64, tobytes = bs\<rparr>])
     = Inr [2, 2, 2]
   \<and> session K h 2 DataNone [ApplyPtm 0 \<lparr>shape = [16, 16], dtype = Float64, tobytes = bs\<rparr>]
     = Inl (ValueError ''ptm shape is wrong'')"
  by (simp add: session_def Density_def set_no_qubits_def blank_def apply_ptm_def
      apply_two_ptm_def validate_bit_def validate_ptm_def cached_ptm_def Let_def)

subsection \<open>Adding an ancilla and projecting it away\<close>

text \<open>
  Claim C7. On every well-formed object (every object a program can hold is one, see
  \<open>session_wf\<close>), \<open>add_ancilla(0)\<close> succeeds and makes the new qubit the one with the
  highest index, \<open>project_measurement\<close> of that qubit on outcome 0 succeeds, the number of
  qubits is back to what it was, and the first \<open>4 ^ no_qubits\<close> cells of the buffer hold
  what they held before.
\<close>

theorem add_ancilla_project_measurement_restores:
  assumes "wf_density s"
  shows "\<exists>s1 s2. add_ancilla 0 s = Inr s1 \<and> no_qubits s1 = no_qubits s + 1
           \<and> project_measurement K (no_qubits s) 0 s1 = Inr s2
           \<and> no_qubits s2 = no_qubits s
           \<and> take (4 ^ nat (no_qubits s)) (data s2) = take (4 ^ nat (no_qubits s)) (data s)"
proof -
  let ?n = "no_qubits s"
  from assms have n0: "0 \<le> ?n" and le: "?n \<le> allocated_qubits s"
    and sz: "size' s = 4 ^ nat ?n" and len: "4 ^ nat (allocated_qubits s) \<le> length (data s)"
    by (auto simp: wf_density_def)
  have len0: "4 ^ nat ?n \<le> length (data s)" using assms by (rule wf_density_size)
  have "\<exists>d. (if allocated_qubits s = ?n
            then memcpy_dtod (replicate (size' s * 4) 0) (0 * 3 * int (2 ^ nat (2 * ?n)))
                   (data s) (2 ^ nat (2 * ?n))
            else memset_d8 (data s) (int (2 ^ nat (2 * ?n))) (3 * 2 ^ nat (2 * ?n))) = Inr d
          \<and> take (4 ^ nat ?n) d = take (4 ^ nat ?n) (data s)"
  proof (cases "allocated_qubits s = ?n")
    case True
    then show ?thesis using n0 sz len0 by (simp add: memcpy_dtod_def pow4)
  next
    case False
    with le have "?n + 1 \<le> allocated_qubits s" by simp
    then have "(4::nat) ^ nat (?n + 1) \<le> 4 ^ nat (allocated_qubits s)" by (rule pow4_mono)
    with len n0 have "4 * 4 ^ nat ?n \<le> length (data s)" by (simp add: pow4_Suc)
    with False show ?thesis using n0 by (simp add: memset_d8_def pow4 nat_power_eq)
  qed
  then obtain d where d: "(if allocated_qubits s = ?n
            then memcpy_dtod (replicate (size' s * 4) 0) (0 * 3 * int (2 ^ nat (2 * ?n)))
                   (data s) (2 ^ nat (2 * ?n))
            else memset_d8 (data s) (int (2 ^ nat (2 * ?n))) (3 * 2 ^ nat (2 * ?n))) = Inr d"
    and td: "take (4 ^ nat ?n) d = take (4 ^ nat ?n) (data s)" by blast
  from n0 obtain s1 where s1: "set_no_qubits (?n + 1) (s\<lparr>data := d\<rparr>) = Inr s1"
    by (auto simp: set_no_qubits_def)
  from d s1 have a: "add_ancilla 0 s = Inr s1"
    by (auto simp: add_ancilla_def Let_def split: if_splits)
  note f1 = set_no_qubits_fields[OF s1]
  from n0 obtain s2 where s2: "set_no_qubits ?n s1 = Inr s2"
    by (auto simp: set_no_qubits_def)
  note f2 = set_no_qubits_fields[OF s2]
  from s2 f1 n0 have p: "project_measurement K ?n 0 s1 = Inr s2"
    by (simp add: project_measurement_def validate_bit_def Let_def)
  from f1 f2 td a p show ?thesis by simp
qed

theorem add_ancilla_project_measurement_restores_witness:
  "wf_density ground1
   \<and> (\<exists>s1 s2. add_ancilla 0 ground1 = Inr s1 \<and> no_qubits s1 = 2
           \<and> project_measurement idle_kernels 1 0 s1 = Inr s2
           \<and> no_qubits s2 = 1
           \<and> take 4 (data s2) = [1, 0, 0, 0])"
proof -
  have n: "no_qubits ground1 = 1" and d: "data ground1 = [1, 0, 0, 0]"
    by (simp_all add: ground1_def)
  from add_ancilla_project_measurement_restores[OF ground1_wf, of idle_kernels]
  show ?thesis unfolding n d using ground1_wf by simp
qed

subsection \<open>The high-water mark\<close>

text \<open>
  Claim C8. The field \<open>allocated_qubits\<close> is said to be the largest value \<open>no_qubits\<close> has
  had. \<open>_set_no_qubits\<close> keeps it so, but \<open>trace\<close>, \<open>partial_trace\<close> and \<open>get_diag\<close> test
  \<open>allocated_diag\<close> (which nothing ever changes from -1) and then assign
  \<open>allocated_qubits = no_qubits\<close>. The theorem runs \<open>Density(1)\<close>, \<open>add_ancilla(0)\<close>,
  \<open>project_measurement(1, 0)\<close>, \<open>trace()\<close> and lists (no_qubits, allocated_qubits) after
  each step: at the end the field is 1 although the object has held 2 qubits.
\<close>

theorem trace_resets_allocated_qubits:
  "map_sum id (map (\<lambda>cs. (no_qubits (snd cs), allocated_qubits (snd cs))))
     (session K h 1 DataNone [AddAncilla 0, ProjectMeasurement 1 0, Trace])
   = Inr [(1, 1), (2, 2), (1, 2), (1, 1)]"
  by (simp add: session_def Density_def set_no_qubits_def blank_def add_ancilla_def
      project_measurement_def validate_bit_def trace_def alloc_diag_def run_get_diag_def
      run_trace_def in_place_def memcpy_dtod_def memset_d8_def Let_def upt_2)

subsection \<open>Limits on the number of qubits\<close>

text \<open>
  Claim C9. The constructor raises (a ValueError) for more than 15 qubits, before it
  looks at the data or allocates; \<open>trace\<close> raises (a NotImplementedError) on a state of
  more than 10 qubits before it touches a buffer; \<open>partial_trace\<close> on such a state raises
  too: the NotImplementedError when its qubit index is valid, the ValueError of the index
  check otherwise.
\<close>

theorem capacity_exceeded_raises:
  "(15 < n \<longrightarrow> Density K n d = Inl (ValueError ''way too many qubits''))
   \<and> (10 < no_qubits s \<longrightarrow>
        trace K s = Inl (NotImplementedError ''Trace not implemented for more than 10 qubits yet''))
   \<and> (10 < no_qubits s \<longrightarrow> (\<exists>e. partial_trace K b s = Inl e))
   \<and> (10 < no_qubits s \<and> 0 \<le> b \<and> b < no_qubits s \<longrightarrow>
        partial_trace K b s
          = Inl (NotImplementedError ''Trace not implemented for more than 10 qubits yet''))"
  by (auto simp: Density_def set_no_qubits_def trace_def partial_trace_def validate_bit_def)

theorem capacity_exceeded_raises_witness:
  "Density idle_kernels 16 DataNone = Inl (ValueError ''way too many qubits'')
   \<and> trace idle_kernels (blank\<lparr>no_qubits := 11\<rparr>)
       = Inl (NotImplementedError ''Trace not implemented for more than 10 qubits yet'')
   \<and> partial_trace idle_kernels 3 (blank\<lparr>no_qubits := 11\<rparr>)
       = Inl (NotImplementedError ''Trace not implemented for more than 10 qubits yet'')"
proof -
  have h1: "(15::int) < 16" by simp
  have h2: "10 < no_qubits (blank\<lparr>no_qubits := 11\<rparr>)" by simp
  have h3: "(0::int) \<le> 3 \<and> 3 < no_qubits (blank\<lparr>no_qubits := 11\<rparr>)" by simp
  from capacity_exceeded_raises[of 16 idle_kernels DataNone "blank\<lparr>no_qubits := 11\<rparr>" 3] h1 h2 h3
  show ?thesis by blast
qed

subsection \<open>Copying\<close>

text \<open>
  Claim C10. \<open>copy\<close> is said to succeed on every object a program can hold. It hands a copy
  of the whole buffer to the constructor, which compares the buffer's size with
  \<open>4 ^ no_qubits\<close>. After \<open>add_ancilla\<close> and \<open>project_measurement\<close> the buffer is larger
  than that (16 cells for 1 qubit below), and the constructor raises.
\<close>

theorem copy_raises_after_shrinking:
  "map_sum id (\<lambda>l. (no_qubits (snd (last l)), length (data (snd (last l))), copy K (snd (last l))))
     (session K h 1 DataNone [AddAncilla 0, ProjectMeasurement 1 0])
   = Inr (1, 16, Inl (ValueError ''data size is wrong''))"
  by (simp add: session_def Density_def set_no_qubits_def blank_def add_ancilla_def
      project_measurement_def validate_bit_def copy_def
      memcpy_dtod_def memset_d8_def Let_def)


section \<open>Properties of the algebra\<close>

subsection \<open>The sum of an einsum does not depend on the order of its labels\<close>

lemma esum_PiE:
  "distinct ls \<Longrightarrow>
   esum (map (\<lambda>l. (l, f l)) ls) body env
     = (\<Sum>g \<in> PiE (set ls) (\<lambda>l. {..<f l}). body (override (set ls) g env))"
proof (induction ls arbitrary: env)
  case Nil
  then show ?case by (simp add: override_def)
next
  case (Cons l ls)
  then have nl: "l \<notin> set ls" and dl: "distinct ls" by auto
  have eq: "\<And>v g. g \<in> PiE (set ls) (\<lambda>l. {..<f l}) \<Longrightarrow>
      override (set ls) g (env(l := v)) = override (insert l (set ls)) (g(l := v)) env"
    using nl by (auto simp: override_def fun_eq_iff)
  have "esum (map (\<lambda>l. (l, f l)) (l # ls)) body env
      = (\<Sum>v<f l. \<Sum>g \<in> PiE (set ls) (\<lambda>l. {..<f l}). body (override (set ls) g (env(l := v))))"
    by (simp only: list.map esum.simps Cons.IH[OF dl])
  also have "\<dots> = (\<Sum>v<f l. \<Sum>g \<in> PiE (set ls) (\<lambda>l. {..<f l}).
        body (override (insert l (set ls)) (g(l := v)) env))"
    by (intro sum.cong refl) (simp add: eq)
  also have "\<dots> = (\<Sum>(v, g) \<in> {..<f l} \<times> PiE (set ls) (\<lambda>l. {..<f l}).
        body (override (insert l (set ls)) (g(l := v)) env))"
    by (simp add: sum.cartesian_product)
  also have "\<dots> = (\<Sum>h \<in> (\<lambda>(v, g). g(l := v)) ` ({..<f l} \<times> PiE (set ls) (\<lambda>l. {..<f l})).
        body (override (insert l (set ls)) h env))"
    by (subst sum.reindex[OF inj_combinator[OF nl]]) (simp add: case_prod_unfold)
  also have "\<dots> = (\<Sum>h \<in> PiE (insert l (set ls)) (\<lambda>l. {..<f l}).
        body (override (insert l (set ls)) h env))"
    by (simp add: PiE_insert_eq)
  finally show ?case by simp
qed

lemma esum_reorder:
  assumes "distinct ls" "distinct ls'" "set ls = set ls'"
  shows "esum (map (\<lambda>l. (l, f l)) ls) body env = esum (map (\<lambda>l. (l, f l)) ls') body env"
  by (simp add: esum_PiE assms)

lemma esum_append:
  "esum (xs @ ys) body env = esum xs (esum ys body) env"
  by (induction xs arbitrary: env) auto

subsection \<open>A block of labels of one extent is one sum over the digits of a number\<close>

lemma sum_div_mod:
  fixes G :: "nat \<Rightarrow> nat \<Rightarrow> 'a::comm_monoid_add"
  shows "(\<Sum>p<a * b. G (p div b) (p mod b)) = (\<Sum>v<a. \<Sum>q<b. G v q)"
proof (cases "b = 0")
  case True
  then show ?thesis by simp
next
  case False
  have inner: "(\<Sum>q<b. G v q) = (\<Sum>p = v * b..<v * b + b. G (p div b) (p mod b))" for v
  proof -
    have "(\<Sum>p = v * b..<v * b + b. G (p div b) (p mod b))
        = (\<Sum>q = 0..<b. G ((q + v * b) div b) ((q + v * b) mod b))"
      using sum.shift_bounds_nat_ivl[of "\<lambda>p. G (p div b) (p mod b)" 0 "v * b" b]
      by (simp add: add.commute)
    also have "\<dots> = (\<Sum>q = 0..<b. G v q)"
      using False by (intro sum.cong refl) simp
    finally show ?thesis
      by (simp add: lessThan_atLeast0)
  qed
  have "(\<Sum>v<a. \<Sum>q<b. G v q) = (\<Sum>v<a. \<Sum>p = v * b..<v * b + b. G (p div b) (p mod b))"
    by (simp add: inner)
  also have "\<dots> = (\<Sum>p<a * b. G (p div b) (p mod b))"
    using sum.nat_group[of "\<lambda>p. G (p div b) (p mod b)" b a] by simp
  finally show ?thesis by simp
qed

lemma length_digits [simp]: "length (digits d k p) = k"
  by (induction k arbitrary: p) auto

lemma esum_block:
  "esum (map (\<lambda>l. (l, d)) ls) body env
     = (\<Sum>p<d ^ length ls. body (assign ls (digits d (length ls) p) env))"
proof (induction ls arbitrary: env)
  case Nil
  then show ?case by simp
next
  case (Cons l ls)
  let ?k = "length ls"
  have "esum (map (\<lambda>l. (l, d)) (l # ls)) body env
      = (\<Sum>v<d. \<Sum>q<d ^ ?k. body (assign ls (digits d ?k q) (env(l := v))))"
    by (simp only: list.map esum.simps Cons.IH)
  also have "\<dots> = (\<Sum>p<d * d ^ ?k. body (assign ls (digits d ?k (p mod d ^ ?k)) (env(l := p div d ^ ?k))))"
    by (rule sum_div_mod[symmetric])
  finally show ?case by simp
qed

lemma assign_other: "l \<notin> set ls \<Longrightarrow> assign ls vs env l = env l"
  by (induction ls vs env rule: assign.induct) auto

lemma assign_nth:
  "distinct ls \<Longrightarrow> length vs = length ls \<Longrightarrow> i < length ls \<Longrightarrow> assign ls vs env (ls ! i) = vs ! i"
proof (induction ls vs env arbitrary: i rule: assign.induct)
  case (1 l ls v vs env)
  show ?case
  proof (cases i)
    case 0
    with "1.prems" show ?thesis by (simp add: assign_other)
  next
    case (Suc j)
    with "1.prems" "1.IH"[of j] show ?thesis by (simp add: fun_upd_def)
  qed
qed auto

lemma digits_less: "p < d ^ k \<Longrightarrow> i < k \<Longrightarrow> digits d k p ! i < d"
proof (induction k arbitrary: p i)
  case 0
  then show ?case by simp
next
  case (Suc k)
  have d0: "0 < d" using Suc.prems(1) by (cases "d = 0") auto
  show ?case
  proof (cases i)
    case 0
    with Suc.prems show ?thesis by (simp add: less_mult_imp_div_less mult.commute)
  next
    case (Suc j)
    with Suc.prems Suc.IH[of "p mod d ^ k" j] d0 show ?thesis by simp
  qed
qed

lemma flat_index_digits: "p < d ^ k \<Longrightarrow> flat_index (replicate k d) (digits d k p) = p"
proof (induction k arbitrary: p)
  case 0
  then show ?case by simp
next
  case (Suc k)
  have d0: "0 < d" using Suc.prems by (cases "d = 0") auto
  then have "p mod d ^ k < d ^ k" by simp
  from Suc.IH[OF this] show ?case by (simp add: prod_list_replicate div_mult_mod_eq)
qed

subsection \<open>The labels of \<open>einsum_args\<close> and their extents\<close>

lemma enumerate_upt: "enumerate 0 bs = map (\<lambda>i. (i, bs ! i)) [0..<length bs]"
  by (rule nth_equalityI) (simp_all add: nth_enumerate_eq)

lemma einsum_args_upt:
  assumes "length bases_in = n" "length bases_out = n"
  shows "einsum_args n kraus bases_in bases_out =
     map (\<lambda>i. (vectors (bases_out ! i), [4 * n + i, 2 * i, 2 * i + 1])) [0..<n]
     @ [(kraus, (6 * n) # map (\<lambda>i. 2 * i + 1) [0..<2 * n])]
     @ map (\<lambda>i. (vectors (bases_in ! i), [5 * n + i, 2 * (i + n) + 1, 2 * (i + n)])) [0..<n]
     @ [(tmap cnj kraus, (6 * n) # map (\<lambda>i. 2 * i) [0..<2 * n])]"
  using assms by (simp add: einsum_args_def enumerate_upt comp_def)

lemma zip_map_replicate: "zip (map f [0..<k]) (replicate k d) = map (\<lambda>j. (f j, d)) [0..<k]"
  by (rule nth_equalityI) simp_all

lemma set_axes_args:
  assumes "length bases_in = n" "length bases_out = n"
    and "\<forall>b \<in> set bases_in. basis_ok d b" "\<forall>b \<in> set bases_out. basis_ok d b"
    and "dims kraus = m # replicate (2 * n) d"
  shows "set (axes (einsum_args n kraus bases_in bases_out)) =
      (\<Union>i<n. {(4 * n + i, dim_pauli (bases_out ! i)), (2 * i, d), (2 * i + 1, d)})
    \<union> (\<Union>i<n. {(5 * n + i, dim_pauli (bases_in ! i)), (2 * (i + n) + 1, d), (2 * (i + n), d)})
    \<union> {(6 * n, m)} \<union> (\<lambda>j. (2 * j + 1, d)) ` {..<2 * n} \<union> (\<lambda>j. (2 * j, d)) ` {..<2 * n}"
proof -
  have bo: "dims (vectors (bases_out ! i)) = [dim_pauli (bases_out ! i), d, d]" if "i < n" for i
    using assms(2,4) that by (auto simp: basis_ok_def)
  have bi: "dims (vectors (bases_in ! i)) = [dim_pauli (bases_in ! i), d, d]" if "i < n" for i
    using assms(1,3) that by (auto simp: basis_ok_def)
  show ?thesis
    unfolding einsum_args_upt[OF assms(1,2)] axes_def
    by (auto simp: bo bi assms(5) tmap_def zip_map_replicate lessThan_atLeast0)
qed

lemma label_dim_unique:
  assumes "(l, e) \<in> set ax" "\<And>e'. (l, e') \<in> set ax \<Longrightarrow> e' = e"
  shows "label_dim ax l = e"
proof -
  let ?es = "map snd (filter (\<lambda>p. fst p = l) ax)"
  have all: "\<forall>x \<in> set ?es. x = e" using assms(2) by auto
  have mem: "e \<in> set ?es" using assms(1) by force
  show ?thesis
  proof (cases "filter (\<lambda>d. d \<noteq> 1) ?es")
    case Nil
    then have "\<forall>x \<in> set ?es. x = 1" by (simp add: filter_empty_conv)
    with mem have "e = 1" by blast
    with Nil show ?thesis by (simp add: label_dim_def)
  next
    case (Cons x xs)
    then have "x \<in> set (filter (\<lambda>d. d \<noteq> 1) ?es)" by simp
    then have "x \<in> set ?es" by simp
    with all have "x = e" by blast
    with Cons show ?thesis by (simp add: label_dim_def)
  qed
qed

lemma axes_args_ldim:
  assumes "length bases_in = n" "length bases_out = n"
    and "\<forall>b \<in> set bases_in. basis_ok d b" "\<forall>b \<in> set bases_out. basis_ok d b"
    and "dims kraus = m # replicate (2 * n) d"
    and "(l, e) \<in> set (axes (einsum_args n kraus bases_in bases_out))"
  shows "e = ldim n d m bases_in bases_out l" "l \<le> 6 * n"
  using assms(6) unfolding set_axes_args[OF assms(1-5)]
  by (auto simp: ldim_def)

lemma fst_axes_args:
  assumes "length bases_in = n" "length bases_out = n"
    and "\<forall>b \<in> set bases_in. basis_ok d b" "\<forall>b \<in> set bases_out. basis_ok d b"
    and "dims kraus = m # replicate (2 * n) d" "0 < n"
  shows "fst ` set (axes (einsum_args n kraus bases_in bases_out)) = {..6 * n}"
proof (intro equalityI subsetI)
  fix l assume "l \<in> fst ` set (axes (einsum_args n kraus bases_in bases_out))"
  then show "l \<in> {..6 * n}" using axes_args_ldim(2)[OF assms(1-5)] by auto
next
  fix l assume "l \<in> {..6 * n}"
  then have l: "l \<le> 6 * n" by simp
  let ?S = "set (axes (einsum_args n kraus bases_in bases_out))"
  consider "l < 4 * n" "even l" | "l < 4 * n" "odd l" | "4 * n \<le> l" "l < 5 * n"
    | "5 * n \<le> l" "l < 6 * n" | "l = 6 * n"
    using l by linarith
  then have "\<exists>e. (l, e) \<in> ?S"
  proof cases
    case 1
    then obtain j where "l = 2 * j" "j < 2 * n" by (auto elim!: evenE)
    then show ?thesis unfolding set_axes_args[OF assms(1-5)] by blast
  next
    case 2
    then obtain j where "l = 2 * j + 1" "j < 2 * n" by (auto elim!: oddE)
    then show ?thesis unfolding set_axes_args[OF assms(1-5)] by blast
  next
    case 3
    then have "l = 4 * n + (l - 4 * n)" "l - 4 * n < n" by auto
    then show ?thesis unfolding set_axes_args[OF assms(1-5)] by blast
  next
    case 4
    then have "l = 5 * n + (l - 5 * n)" "l - 5 * n < n" by auto
    then show ?thesis unfolding set_axes_args[OF assms(1-5)] by blast
  next
    case 5
    then show ?thesis unfolding set_axes_args[OF assms(1-5)] by blast
  qed
  then show "l \<in> fst ` ?S" by force
qed

lemma label_dim_args:
  assumes "length bases_in = n" "length bases_out = n"
    and "\<forall>b \<in> set bases_in. basis_ok d b" "\<forall>b \<in> set bases_out. basis_ok d b"
    and "dims kraus = m # replicate (2 * n) d" "0 < n" "l \<le> 6 * n"
  shows "label_dim (axes (einsum_args n kraus bases_in bases_out)) l = ldim n d m bases_in bases_out l"
proof -
  from assms(7) fst_axes_args[OF assms(1-6)]
  obtain e where e: "(l, e) \<in> set (axes (einsum_args n kraus bases_in bases_out))" by force
  have "label_dim (axes (einsum_args n kraus bases_in bases_out)) l = e"
    using e axes_args_ldim(1)[OF assms(1-5)] by (intro label_dim_unique) auto
  with axes_args_ldim(1)[OF assms(1-5) e] show ?thesis by simp
qed

lemma einsum_args_labels:
  assumes "length bases_in = n" "length bases_out = n"
    and "l \<in> set (concat (map snd (einsum_args n kraus bases_in bases_out)) @ out_labels n)"
  shows "l \<le> 6 * n"
  using assms(3) unfolding einsum_args_upt[OF assms(1,2)] out_labels_def
  by auto

lemma einsum_args_ranks:
  assumes "length bases_in = n" "length bases_out = n"
    and "\<forall>b \<in> set bases_in. basis_ok d b" "\<forall>b \<in> set bases_out. basis_ok d b"
    and "dims kraus = m # replicate (2 * n) d"
    and "(t, ls) \<in> set (einsum_args n kraus bases_in bases_out)"
  shows "length ls = length (dims t)"
proof -
  have bo: "dims (vectors (bases_out ! i)) = [dim_pauli (bases_out ! i), d, d]" if "i < n" for i
    using assms(2,4) that by (auto simp: basis_ok_def)
  have bi: "dims (vectors (bases_in ! i)) = [dim_pauli (bases_in ! i), d, d]" if "i < n" for i
    using assms(1,3) that by (auto simp: basis_ok_def)
  from assms(6) show ?thesis
    unfolding einsum_args_upt[OF assms(1,2)]
    by (auto simp: bo bi assms(5) tmap_def)
qed

lemma map_ldim_out:
  assumes "length bases_in = n" "length bases_out = n"
  shows "map (ldim n d m bases_in bases_out) (out_labels n)
           = map dim_pauli bases_out @ map dim_pauli bases_in"
proof (rule nth_equalityI)
  show "length (map (ldim n d m bases_in bases_out) (out_labels n))
      = length (map dim_pauli bases_out @ map dim_pauli bases_in)"
    using assms by (simp add: out_labels_def)
next
  fix i assume "i < length (map (ldim n d m bases_in bases_out) (out_labels n))"
  then have i: "i < 2 * n" by (simp add: out_labels_def)
  show "map (ldim n d m bases_in bases_out) (out_labels n) ! i
      = (map dim_pauli bases_out @ map dim_pauli bases_in) ! i"
  proof (cases "i < n")
    case True
    with i assms show ?thesis by (simp add: out_labels_def ldim_def nth_append)
  next
    case False
    with i assms have "4 * n + i - 5 * n = i - n" by simp
    with False i assms show ?thesis by (simp add: out_labels_def ldim_def nth_append)
  qed
qed

lemma einsum_args_result:
  assumes "length bases_in = n" "length bases_out = n"
    and "\<forall>b \<in> set bases_in. basis_ok d b" "\<forall>b \<in> set bases_out. basis_ok d b"
    and "dims kraus = m # replicate (2 * n) d" "0 < n" "6 * n < einsum_symbols"
  shows "einsum (einsum_args n kraus bases_in bases_out) (out_labels n) =
     Inr (Tensor (map dim_pauli bases_out @ map dim_pauli bases_in)
       (map (\<lambda>vals. esum (map (\<lambda>l. (l, ldim n d m bases_in bases_out l))
                           (summed_labels n kraus bases_in bases_out))
                     (term_of (einsum_args n kraus bases_in bases_out))
                     (env_of (out_labels n) vals))
            (indices (map dim_pauli bases_out @ map dim_pauli bases_in))))"
proof -
  let ?ops = "einsum_args n kraus bases_in bases_out"
  let ?ax = "axes ?ops"
  let ?ld = "ldim n d m bases_in bases_out"
  note h = assms(1-5)
  have c1: "\<not> (\<exists>l \<in> set (concat (map snd ?ops) @ out_labels n). einsum_symbols \<le> l)"
    using einsum_args_labels[OF assms(1,2)] assms(7) by fastforce
  have c2: "\<not> (\<exists>(t, ls) \<in> set ?ops. length ls \<noteq> length (dims t))"
    using einsum_args_ranks[OF h] by fastforce
  have c3: "distinct (out_labels n)"
    by (simp add: out_labels_def distinct_map inj_on_def)
  have c3': "set (out_labels n) \<subseteq> set (sort (remdups (map fst ?ax)))"
    using fst_axes_args[OF h assms(6)] by (auto simp: out_labels_def)
  have c4: "\<not> (\<exists>(l, e) \<in> set ?ax. e \<noteq> 1 \<and> e \<noteq> label_dim ?ax l)"
  proof -
    have "e = label_dim ?ax l" if "(l, e) \<in> set ?ax" for l e
      using axes_args_ldim[OF h that] label_dim_args[OF h assms(6), of l] by simp
    then show ?thesis by fastforce
  qed
  have ld_out: "map (label_dim ?ax) (out_labels n) = map dim_pauli bases_out @ map dim_pauli bases_in"
  proof -
    have "map (label_dim ?ax) (out_labels n) = map ?ld (out_labels n)"
      using label_dim_args[OF h assms(6)] by (auto simp: out_labels_def)
    then show ?thesis by (simp add: map_ldim_out[OF assms(1,2)])
  qed
  have ld_sum: "map (\<lambda>l. (l, label_dim ?ax l)) (summed_labels n kraus bases_in bases_out)
      = map (\<lambda>l. (l, ?ld l)) (summed_labels n kraus bases_in bases_out)"
  proof (rule map_cong[OF refl])
    fix l assume "l \<in> set (summed_labels n kraus bases_in bases_out)"
    then have "l \<in> fst ` set ?ax" by (auto simp: summed_labels_def)
    with fst_axes_args[OF h assms(6)] have "l \<le> 6 * n" by auto
    from label_dim_args[OF h assms(6) this] show "(l, label_dim ?ax l) = (l, ?ld l)" by simp
  qed
  show ?thesis
    unfolding einsum_def Let_def
    using c1 c2 c3 c3' c4
    by (simp only: if_False if_True ld_out ld_sum[unfolded summed_labels_def] summed_labels_def
        simp_thms not_not)
qed

subsection \<open>Reading an element of the result of einsum\<close>

lemma length_concat_uniform:
  "\<forall>xs \<in> set xss. length xs = k \<Longrightarrow> length (concat xss) = length xss * k"
  by (induction xss) auto

lemma nth_concat_uniform:
  "\<forall>xs \<in> set xss. length xs = k \<Longrightarrow> i < length xss \<Longrightarrow> j < k
     \<Longrightarrow> concat xss ! (i * k + j) = xss ! i ! j"
proof (induction xss arbitrary: i)
  case Nil
  then show ?case by simp
next
  case (Cons xs xss)
  show ?case
  proof (cases i)
    case 0
    with Cons.prems show ?thesis by (simp add: nth_append)
  next
    case (Suc i')
    with Cons.prems have "concat xss ! (i' * k + j) = xss ! i' ! j"
      by (intro Cons.IH) auto
    moreover have "length xs = k" using Cons.prems by simp
    ultimately show ?thesis using Suc by (simp add: nth_append)
  qed
qed

lemma length_indices: "length (indices ds) = prod_list ds"
proof (induction ds)
  case Nil
  then show ?case by simp
next
  case (Cons d ds)
  have "length (concat (map (\<lambda>i. map ((#) i) (indices ds)) [0..<d])) = length (map (\<lambda>i. map ((#) i) (indices ds)) [0..<d]) * prod_list ds"
    by (rule length_concat_uniform) (auto simp: Cons.IH)
  then show ?case by simp
qed

lemma flat_index_less:
  "list_all2 (<) idx ds \<Longrightarrow> flat_index ds idx < prod_list ds"
proof (induction idx ds rule: list_all2_induct)
  case Nil
  then show ?case by simp
next
  case (Cons i idx d ds)
  have "i * prod_list ds + flat_index ds idx < i * prod_list ds + prod_list ds"
    using Cons.IH by simp
  also have "\<dots> = (i + 1) * prod_list ds" by simp
  also have "\<dots> \<le> d * prod_list ds" using Cons.hyps(1) by (intro mult_le_mono1) simp
  finally show ?case by simp
qed

lemma indices_nth:
  "list_all2 (<) idx ds \<Longrightarrow> indices ds ! flat_index ds idx = idx"
proof (induction idx ds rule: list_all2_induct)
  case Nil
  then show ?case by simp
next
  case (Cons i idx d ds)
  let ?xss = "map (\<lambda>i. map ((#) i) (indices ds)) [0..<d]"
  have "concat ?xss ! (i * prod_list ds + flat_index ds idx) = ?xss ! i ! flat_index ds idx"
    using Cons.hyps(1) flat_index_less[OF Cons.hyps(2)]
    by (intro nth_concat_uniform) (auto simp: length_indices)
  also have "\<dots> = i # indices ds ! flat_index ds idx"
    using Cons.hyps(1) flat_index_less[OF Cons.hyps(2)] by (simp add: length_indices)
  finally show ?case using Cons.IH by simp
qed

lemma map2_bcast_valid: "list_all2 (<) idx ds \<Longrightarrow> map2 bcast ds idx = idx"
  by (induction idx ds rule: list_all2_induct) (auto simp: bcast_def)

lemma lookup_Tensor_indices:
  "list_all2 (<) idx ds \<Longrightarrow> lookup (Tensor ds (map F (indices ds))) idx = F idx"
  using flat_index_less[of idx ds]
  by (simp add: lookup_def map2_bcast_valid length_indices indices_nth)

lemma lookup_tmap:
  "flat_index (dims t) (map2 bcast (dims t) idx) < length (elems t) \<Longrightarrow> lookup (tmap f t) idx = f (lookup t idx)"
  by (simp add: lookup_def tmap_def)

subsection \<open>The summed labels of \<open>kraus_to_ptm\<close> in four blocks\<close>

lemma set_labs:
  "set (labs_a n) = {l. l < 2 * n \<and> even l}"
  "set (labs_b n) = {l. l < 2 * n \<and> odd l}"
  "set (labs_c n) = {l. 2 * n \<le> l \<and> l < 4 * n \<and> odd l}"
  "set (labs_e n) = {l. 2 * n \<le> l \<and> l < 4 * n \<and> even l}"
proof -
  show "set (labs_a n) = {l. l < 2 * n \<and> even l}"
    by (auto simp: labs_a_def elim!: evenE)
  show "set (labs_b n) = {l. l < 2 * n \<and> odd l}"
    by (auto simp: labs_b_def image_iff elim!: oddE)
  show "set (labs_c n) = {l. 2 * n \<le> l \<and> l < 4 * n \<and> odd l}"
  proof (intro equalityI subsetI)
    fix l assume "l \<in> {l. 2 * n \<le> l \<and> l < 4 * n \<and> odd l}"
    then obtain j where j: "l = 2 * j + 1" and b: "2 * n \<le> l" "l < 4 * n" by (auto elim!: oddE)
    then have "l = 2 * ((j - n) + n) + 1" "j - n < n" by auto
    then show "l \<in> set (labs_c n)" unfolding labs_c_def by (auto simp: image_iff)
  qed (auto simp: labs_c_def)
  show "set (labs_e n) = {l. 2 * n \<le> l \<and> l < 4 * n \<and> even l}"
  proof (intro equalityI subsetI)
    fix l assume "l \<in> {l. 2 * n \<le> l \<and> l < 4 * n \<and> even l}"
    then obtain j where j: "l = 2 * j" and b: "2 * n \<le> l" "l < 4 * n" by (auto elim!: evenE)
    then have "l = 2 * ((j - n) + n)" "j - n < n" by auto
    then show "l \<in> set (labs_e n)" unfolding labs_e_def by (auto simp: image_iff)
  qed (auto simp: labs_e_def)
qed

lemma distinct_labs:
  "distinct (labs_a n)" "distinct (labs_b n)" "distinct (labs_c n)" "distinct (labs_e n)"
  by (simp_all add: labs_a_def labs_b_def labs_c_def labs_e_def distinct_map inj_on_def)

lemma length_labs [simp]:
  "length (labs_a n) = n" "length (labs_b n) = n" "length (labs_c n) = n" "length (labs_e n) = n"
  by (simp_all add: labs_a_def labs_b_def labs_c_def labs_e_def)

lemma distinct_all_labs:
  "0 < n \<Longrightarrow> distinct (6 * n # labs_a n @ labs_b n @ labs_c n @ labs_e n)"
  by (auto simp: distinct_labs set_labs)

lemma set_all_labs:
  "set (6 * n # labs_a n @ labs_b n @ labs_c n @ labs_e n) = {..<4 * n} \<union> {6 * n}"
  by (auto simp: set_labs)

lemma summed_labels_props:
  assumes "length bases_in = n" "length bases_out = n"
    and "\<forall>b \<in> set bases_in. basis_ok d b" "\<forall>b \<in> set bases_out. basis_ok d b"
    and "dims kraus = m # replicate (2 * n) d" "0 < n"
  shows "distinct (summed_labels n kraus bases_in bases_out)"
    "set (summed_labels n kraus bases_in bases_out) = {..<4 * n} \<union> {6 * n}"
proof -
  show "distinct (summed_labels n kraus bases_in bases_out)"
    by (simp add: summed_labels_def)
  have "set (out_labels n) = {4 * n..<6 * n}"
  proof (intro equalityI subsetI)
    fix l assume "l \<in> {4 * n..<6 * n}"
    then have "l = 4 * n + (l - 4 * n)" "l - 4 * n < 2 * n" by auto
    then show "l \<in> set (out_labels n)" unfolding out_labels_def by (auto simp: image_iff)
  qed (auto simp: out_labels_def)
  then show "set (summed_labels n kraus bases_in bases_out) = {..<4 * n} \<union> {6 * n}"
    using fst_axes_args[OF assms] by (auto simp: summed_labels_def)
qed

lemma esum_summed:
  assumes "length bases_in = n" "length bases_out = n"
    and "\<forall>b \<in> set bases_in. basis_ok d b" "\<forall>b \<in> set bases_out. basis_ok d b"
    and "dims kraus = m # replicate (2 * n) d" "0 < n"
  shows "esum (map (\<lambda>l. (l, ldim n d m bases_in bases_out l)) (summed_labels n kraus bases_in bases_out))
            body env
       = (\<Sum>z<m. \<Sum>pa<d ^ n. \<Sum>pb<d ^ n. \<Sum>pc<d ^ n. \<Sum>pe<d ^ n.
            body (env5 n d z pa pb pc pe env))"
proof -
  let ?ld = "ldim n d m bases_in bases_out"
  let ?L = "6 * n # labs_a n @ labs_b n @ labs_c n @ labs_e n"
  have "esum (map (\<lambda>l. (l, ?ld l)) (summed_labels n kraus bases_in bases_out)) body env
      = esum (map (\<lambda>l. (l, ?ld l)) ?L) body env"
    using summed_labels_props[OF assms] distinct_all_labs[OF assms(6)] set_all_labs[of n]
    by (intro esum_reorder) auto
  also have "map (\<lambda>l. (l, ?ld l)) ?L
      = (6 * n, m) # map (\<lambda>l. (l, d)) (labs_a n) @ map (\<lambda>l. (l, d)) (labs_b n)
          @ map (\<lambda>l. (l, d)) (labs_c n) @ map (\<lambda>l. (l, d)) (labs_e n)"
    using assms(6) by (auto simp: ldim_def set_labs)
  also have "esum \<dots> body env
      = (\<Sum>z<m. \<Sum>pa<d ^ n. \<Sum>pb<d ^ n. \<Sum>pc<d ^ n. \<Sum>pe<d ^ n.
            body (env5 n d z pa pb pc pe env))"
    by (simp only: esum.simps esum_append esum_block length_labs env5_def)
  finally show ?thesis .
qed

lemma env5_lookup:
  assumes "0 < n" "i < n"
  shows "env5 n d z pa pb pc pe env (2 * i) = digits d n pa ! i"
    "env5 n d z pa pb pc pe env (2 * i + 1) = digits d n pb ! i"
    "env5 n d z pa pb pc pe env (2 * (i + n) + 1) = digits d n pc ! i"
    "env5 n d z pa pb pc pe env (2 * (i + n)) = digits d n pe ! i"
proof -
  have a: "2 * i = labs_a n ! i" and b: "2 * i + 1 = labs_b n ! i"
    and c: "2 * (i + n) + 1 = labs_c n ! i" and e: "2 * (i + n) = labs_e n ! i"
    using assms(2) by (simp_all add: labs_a_def labs_b_def labs_c_def labs_e_def)
  have na: "labs_a n ! i \<notin> set (labs_b n)" "labs_a n ! i \<notin> set (labs_c n)" "labs_a n ! i \<notin> set (labs_e n)"
    using assms(2) unfolding a[symmetric] by (auto simp: set_labs)
  have nb: "labs_b n ! i \<notin> set (labs_c n)" "labs_b n ! i \<notin> set (labs_e n)"
    using assms(2) unfolding b[symmetric] by (auto simp: set_labs)
  have nc: "labs_c n ! i \<notin> set (labs_e n)"
    using assms(2) unfolding c[symmetric] by (auto simp: set_labs)
  show "env5 n d z pa pb pc pe env (2 * i) = digits d n pa ! i"
    unfolding a env5_def using assms(2) na by (simp add: assign_other assign_nth distinct_labs)
  show "env5 n d z pa pb pc pe env (2 * i + 1) = digits d n pb ! i"
    unfolding b env5_def using assms(2) nb by (simp add: assign_other assign_nth distinct_labs)
  show "env5 n d z pa pb pc pe env (2 * (i + n) + 1) = digits d n pc ! i"
    unfolding c env5_def using assms(2) nc by (simp add: assign_other assign_nth distinct_labs)
  show "env5 n d z pa pb pc pe env (2 * (i + n)) = digits d n pe ! i"
    unfolding e env5_def using assms(2) by (simp add: assign_other assign_nth distinct_labs)
qed

lemma env5_lookup_Suc:
  assumes "0 < n" "i < n"
  shows "env5 n d z pa pb pc pe env (Suc (2 * i)) = digits d n pb ! i"
    "env5 n d z pa pb pc pe env (Suc (2 * (i + n))) = digits d n pc ! i"
  using env5_lookup(2,3)[OF assms, of d z pa pb pc pe env] by simp_all

lemma env5_other:
  assumes "4 * n \<le> l"
  shows "env5 n d z pa pb pc pe env l = (env(6 * n := z)) l"
  using assms unfolding env5_def by (simp add: assign_other set_labs)

subsection \<open>Kronecker products and the reshaped Kraus stack\<close>

lemma kron_list_digits:
  "kron_list d Ms p q
     = (\<Prod>i<length Ms. (Ms ! i) (digits d (length Ms) p ! i) (digits d (length Ms) q ! i))"
proof (induction Ms arbitrary: p q)
  case Nil
  then show ?case by simp
next
  case (Cons A As)
  show ?case
    by (simp add: Cons.IH prod.lessThan_Suc_shift del: prod.lessThan_Suc)
qed

lemma tensor_op_digits:
  assumes "length bs = n" "length xs = n"
  shows "tensor_op d bs xs p q
     = (\<Prod>i<n. basis_op (bs ! i) (xs ! i) (digits d n p ! i) (digits d n q ! i))"
  unfolding tensor_op_def kron_list_digits using assms by simp

lemma env_of_nth:
  "distinct ls \<Longrightarrow> length vs = length ls \<Longrightarrow> i < length ls \<Longrightarrow> env_of ls vs (ls ! i) = vs ! i"
proof -
  assume a: "distinct ls" "length vs = length ls" "i < length ls"
  then have "map_of (zip ls vs) (ls ! i) = Some (vs ! i)"
    by (intro map_of_zip_nth) auto
  then show ?thesis by (simp add: env_of_def)
qed

lemma flat_index_append:
  "length xs = j \<Longrightarrow> flat_index (replicate j d @ ds) (xs @ ys)
     = flat_index (replicate j d) xs * prod_list ds + flat_index ds ys"
proof (induction xs arbitrary: j)
  case Nil
  then show ?case by simp
next
  case (Cons x xs)
  then obtain j' where j: "j = Suc j'" "length xs = j'" by (cases j) auto
  from Cons.IH[OF j(2)] show ?case unfolding j by (simp add: algebra_simps)
qed

lemma digits_valid:
  "p < d ^ k \<Longrightarrow> list_all2 (<) (digits d k p) (replicate k d)"
  by (auto simp: list_all2_conv_all_nth digits_less)

lemma list_all2_less_append:
  "list_all2 (<) xs ds \<Longrightarrow> list_all2 (<) ys es \<Longrightarrow> list_all2 (<) (xs @ ys) (ds @ es)"
  by (rule list_all2_appendI)

lemma reshaped_kraus_index:
  assumes "z < m" "pb < d ^ n" "pc < d ^ n"
  shows "flat_index (m # replicate (2 * n) d) (map2 bcast (m # replicate (2 * n) d) (z # digits d n pb @ digits d n pc))
       = flat_index [m, d ^ n, d ^ n] (map2 bcast [m, d ^ n, d ^ n] [z, pb, pc])"
proof -
  have v1: "list_all2 (<) (z # digits d n pb @ digits d n pc) (m # replicate (2 * n) d)"
  proof -
    have "list_all2 (<) (digits d n pb @ digits d n pc) (replicate n d @ replicate n d)"
      using assms by (intro list_all2_appendI digits_valid)
    also have "replicate n d @ replicate n d = replicate (2 * n) d"
      by (simp add: replicate_add[symmetric] mult_2)
    finally show ?thesis using assms(1) by simp
  qed
  have v2: "list_all2 (<) [z, pb, pc] [m, d ^ n, d ^ n]" using assms by simp
  have r: "replicate (2 * n) d = replicate n d @ replicate n d"
    by (simp add: replicate_add[symmetric] mult_2)
  have "flat_index (replicate n d @ replicate n d) (digits d n pb @ digits d n pc)
      = pb * d ^ n + pc"
    using assms by (simp add: flat_index_append flat_index_digits prod_list_replicate)
  then show ?thesis
    unfolding map2_bcast_valid[OF v1] map2_bcast_valid[OF v2]
    by (simp add: r prod_list_replicate power_add)
qed

subsection \<open>The product under the sum\<close>

lemma prod_list_upt: "prod_list (map f [0..<n]) = (\<Prod>i<n. f i)"
  by (induction n) auto

lemma reshaped_kraus_lookup:
  assumes "kraus_ok m (d ^ n) kraus" "z < m" "pb < d ^ n" "pc < d ^ n"
  shows "lookup (Tensor (m # replicate (2 * n) d) (elems kraus)) (z # digits d n pb @ digits d n pc)
           = kraus_op kraus z pb pc"
    and "lookup (tmap cnj (Tensor (m # replicate (2 * n) d) (elems kraus))) (z # digits d n pb @ digits d n pc)
           = cnj (kraus_op kraus z pb pc)"
proof -
  have dk: "dims kraus = [m, d ^ n, d ^ n]" and lk: "length (elems kraus) = m * d ^ n * d ^ n"
    using assms(1) by (auto simp: kraus_ok_def)
  have "list_all2 (<) [z, pb, pc] [m, d ^ n, d ^ n]" using assms by simp
  from flat_index_less[OF this] map2_bcast_valid[OF this]
  have lt: "flat_index [m, d ^ n, d ^ n] (map2 bcast [m, d ^ n, d ^ n] [z, pb, pc]) < length (elems kraus)"
    by (simp add: lk)
  show "lookup (Tensor (m # replicate (2 * n) d) (elems kraus)) (z # digits d n pb @ digits d n pc)
           = kraus_op kraus z pb pc"
    unfolding lookup_def kraus_op_def tensor.sel reshaped_kraus_index[OF assms(2-4)] dk ..
  show "lookup (tmap cnj (Tensor (m # replicate (2 * n) d) (elems kraus))) (z # digits d n pb @ digits d n pc)
           = cnj (kraus_op kraus z pb pc)"
    unfolding lookup_def kraus_op_def tmap_def tensor.sel reshaped_kraus_index[OF assms(2-4)] dk
    using lt by (simp add: dk)
qed

lemma term_of_env5:
  assumes "length bases_in = n" "length bases_out = n" "0 < n"
    and "kraus_ok m (d ^ n) kraus" "z < m" "pa < d ^ n" "pb < d ^ n" "pc < d ^ n" "pe < d ^ n"
    and "length x = n" "length y = n"
  shows "term_of (einsum_args n (Tensor (m # replicate (2 * n) d) (elems kraus)) bases_in bases_out)
           (env5 n d z pa pb pc pe (env_of (out_labels n) (x @ y)))
       = tensor_op d bases_out x pa pb * kraus_op kraus z pb pc
           * tensor_op d bases_in y pc pe * cnj (kraus_op kraus z pa pe)"
proof -
  let ?env = "env5 n d z pa pb pc pe (env_of (out_labels n) (x @ y))"
  let ?K = "Tensor (m # replicate (2 * n) d) (elems kraus)"
  have dol: "distinct (out_labels n)" "length (out_labels n) = 2 * n"
    by (simp_all add: out_labels_def distinct_map inj_on_def)
  have ex: "?env (4 * n + i) = x ! i" if "i < n" for i
  proof -
    have "?env (4 * n + i) = env_of (out_labels n) (x @ y) (out_labels n ! i)"
      using that assms(3) by (simp add: env5_other out_labels_def)
    also have "\<dots> = (x @ y) ! i"
      using that assms(10,11) dol by (intro env_of_nth) auto
    finally show ?thesis using that assms(10) by (simp add: nth_append)
  qed
  have ey: "?env (5 * n + i) = y ! i" if "i < n" for i
  proof -
    have "5 * n + i = out_labels n ! (n + i)" using that by (simp add: out_labels_def)
    then have "?env (5 * n + i) = env_of (out_labels n) (x @ y) (out_labels n ! (n + i))"
      using that assms(3) by (simp add: env5_other)
    also have "\<dots> = (x @ y) ! (n + i)"
      using that assms(10,11) dol by (intro env_of_nth) auto
    finally show ?thesis using that assms(10) by (simp add: nth_append)
  qed
  have ez: "?env (6 * n) = z" by (simp add: env5_other)
  have odd_l: "map (\<lambda>i. ?env (2 * i + 1)) [0..<2 * n] = digits d n pb @ digits d n pc"
  proof (rule nth_equalityI)
    fix i assume "i < length (map (\<lambda>i. ?env (2 * i + 1)) [0..<2 * n])"
    then have i: "i < 2 * n" by simp
    show "map (\<lambda>i. ?env (2 * i + 1)) [0..<2 * n] ! i = (digits d n pb @ digits d n pc) ! i"
    proof (cases "i < n")
      case True
      with i show ?thesis by (simp add: nth_append env5_lookup[OF assms(3)] env5_lookup_Suc[OF assms(3)])
    next
      case False
      with i have "i = (i - n) + n" "i - n < n" by auto
      with env5_lookup_Suc(2)[OF assms(3), of "i - n" d z pa pb pc pe] False i show ?thesis
        by (simp add: nth_append)
    qed
  qed simp
  have even_l: "map (\<lambda>i. ?env (2 * i)) [0..<2 * n] = digits d n pa @ digits d n pe"
  proof (rule nth_equalityI)
    fix i assume "i < length (map (\<lambda>i. ?env (2 * i)) [0..<2 * n])"
    then have i: "i < 2 * n" by simp
    show "map (\<lambda>i. ?env (2 * i)) [0..<2 * n] ! i = (digits d n pa @ digits d n pe) ! i"
    proof (cases "i < n")
      case True
      with i show ?thesis by (simp add: nth_append env5_lookup[OF assms(3)] env5_lookup_Suc[OF assms(3)])
    next
      case False
      with i have "i = (i - n) + n" "i - n < n" by auto
      with env5_lookup(4)[OF assms(3), of "i - n" d z pa pb pc pe] False i show ?thesis
        by (simp add: nth_append)
    qed
  qed simp
  have po1: "lookup (vectors (bases_out ! i)) [?env (4 * n + i), ?env (2 * i), ?env (2 * i + 1)]
      = basis_op (bases_out ! i) (x ! i) (digits d n pa ! i) (digits d n pb ! i)" if "i < n" for i
    unfolding basis_op_def ex[OF that] env5_lookup(1,2)[OF assms(3) that] ..
  have pi1: "lookup (vectors (bases_in ! i)) [?env (5 * n + i), ?env (2 * (i + n) + 1), ?env (2 * (i + n))]
      = basis_op (bases_in ! i) (y ! i) (digits d n pc ! i) (digits d n pe ! i)" if "i < n" for i
    unfolding basis_op_def ey[OF that] env5_lookup(3,4)[OF assms(3) that] ..
  have po: "(\<Prod>i<n. lookup (vectors (bases_out ! i)) [?env (4 * n + i), ?env (2 * i), ?env (2 * i + 1)])
      = tensor_op d bases_out x pa pb"
    unfolding tensor_op_digits[OF assms(2,10)]
    by (rule prod.cong[OF refl]) (simp only: lessThan_iff po1)
  have pi: "(\<Prod>i<n. lookup (vectors (bases_in ! i)) [?env (5 * n + i), ?env (2 * (i + n) + 1), ?env (2 * (i + n))])
      = tensor_op d bases_in y pc pe"
    unfolding tensor_op_digits[OF assms(1,11)]
    by (rule prod.cong[OF refl]) (simp only: lessThan_iff pi1)
  have "term_of (einsum_args n ?K bases_in bases_out) ?env
      = (\<Prod>i<n. lookup (vectors (bases_out ! i)) [?env (4 * n + i), ?env (2 * i), ?env (2 * i + 1)])
        * (lookup ?K (?env (6 * n) # map (\<lambda>i. ?env (2 * i + 1)) [0..<2 * n])
        * ((\<Prod>i<n. lookup (vectors (bases_in ! i)) [?env (5 * n + i), ?env (2 * (i + n) + 1), ?env (2 * (i + n))])
        * lookup (tmap cnj ?K) (?env (6 * n) # map (\<lambda>i. ?env (2 * i)) [0..<2 * n])))"
    unfolding term_of_def einsum_args_upt[OF assms(1,2)]
    by (simp only: map_append map_map comp_def prod_list.append prod_list.Cons prod_list.Nil
          list.map prod.case prod_list_upt mult_1_right)
  also have "\<dots> = tensor_op d bases_out x pa pb * (kraus_op kraus z pb pc
        * (tensor_op d bases_in y pc pe * cnj (kraus_op kraus z pa pe)))"
    unfolding po pi ez odd_l even_l
    by (simp only: reshaped_kraus_lookup[OF assms(4)] assms(5-9))
  finally show ?thesis by (simp add: mult.assoc)
qed

subsection \<open>What \<open>kraus_to_ptm\<close> returns\<close>

lemma ptm_sum_expand:
  "ptm_sum m D BO K BI
     = (\<Sum>z<m. \<Sum>pa<D. \<Sum>pb<D. \<Sum>pc<D. \<Sum>pe<D.
          BO pa pb * K z pb pc * BI pc pe * cnj (K z pa pe))"
  by (simp add: ptm_sum_def tr_def mat_mul_def dagger_def sum_distrib_left mult.assoc)

lemma length_in_indices: "vals \<in> set (indices ds) \<Longrightarrow> length vals = length ds"
  by (induction ds arbitrary: vals) auto

lemma kraus_to_ptm_eval:
  assumes "length bases_in = n" "length bases_out = n" "0 < n"
    and "\<forall>b \<in> set bases_in. basis_ok d b" "\<forall>b \<in> set bases_out. basis_ok d b"
    and "kraus_ok m (d ^ n) kraus" "6 * n < einsum_symbols"
  shows "kraus_to_ptm kraus bases_in bases_out =
     Inr (Tensor (map dim_pauli bases_out @ map dim_pauli bases_in)
       (map (\<lambda>vals. Re (ptm_sum m (d ^ n) (tensor_op d bases_out (take n vals)) (kraus_op kraus)
                           (tensor_op d bases_in (drop n vals))))
            (indices (map dim_pauli bases_out @ map dim_pauli bases_in))))"
proof -
  let ?K = "Tensor (m # replicate (2 * n) d) (elems kraus)"
  let ?ds = "map dim_pauli bases_out @ map dim_pauli bases_in"
  obtain b0 bs where bi: "bases_in = b0 # bs" using assms(1,3) by (cases bases_in) auto
  have d0: "dim_hilbert b0 = d" using assms(4) bi by (simp add: basis_ok_def)
  have dk: "dims kraus = [m, d ^ n, d ^ n]" using assms(6) by (simp add: kraus_ok_def)
  have rs: "reshape kraus (m # replicate (2 * n) d) = Inr ?K"
    by (simp add: reshape_def dk prod_list_replicate power_add mult_2)
  have dK: "dims ?K = m # replicate (2 * n) d" by simp
  have G: "esum (map (\<lambda>l. (l, ldim n d m bases_in bases_out l)) (summed_labels n ?K bases_in bases_out))
              (term_of (einsum_args n ?K bases_in bases_out)) (env_of (out_labels n) (x @ y))
         = ptm_sum m (d ^ n) (tensor_op d bases_out x) (kraus_op kraus) (tensor_op d bases_in y)"
    if xy: "length x = n" "length y = n" for x y
    unfolding esum_summed[OF assms(1,2,4,5) dK assms(3)] ptm_sum_expand
    by (intro sum.cong refl term_of_env5[OF assms(1,2,3,6) _ _ _ _ _ xy]) simp_all
  have F: "esum (map (\<lambda>l. (l, ldim n d m bases_in bases_out l)) (summed_labels n ?K bases_in bases_out))
              (term_of (einsum_args n ?K bases_in bases_out)) (env_of (out_labels n) vals)
         = ptm_sum m (d ^ n) (tensor_op d bases_out (take n vals)) (kraus_op kraus)
              (tensor_op d bases_in (drop n vals))"
    if "vals \<in> set (indices ?ds)" for vals
  proof -
    have lv: "length vals = 2 * n" using length_in_indices[OF that] assms(1,2) by simp
    then have "length (take n vals) = n" "length (drop n vals) = n" by auto
    from G[OF this] show ?thesis by simp
  qed
  have "kraus_to_ptm kraus bases_in bases_out
      = map_sum id (tmap Re) (einsum (einsum_args n ?K bases_in bases_out) (out_labels n))"
    using assms(1,2) d0 rs by (simp add: kraus_to_ptm_def bi dk out_labels_def)
  also have "\<dots> = Inr (Tensor ?ds (map (\<lambda>vals. Re (esum (map (\<lambda>l. (l, ldim n d m bases_in bases_out l))
                           (summed_labels n ?K bases_in bases_out))
                     (term_of (einsum_args n ?K bases_in bases_out))
                     (env_of (out_labels n) vals))) (indices ?ds)))"
    unfolding einsum_args_result[OF assms(1,2,4,5) dK assms(3,7)]
    by (simp add: tmap_def comp_def)
  also have "\<dots> = Inr (Tensor ?ds (map (\<lambda>vals. Re (ptm_sum m (d ^ n) (tensor_op d bases_out (take n vals))
               (kraus_op kraus) (tensor_op d bases_in (drop n vals)))) (indices ?ds)))"
    using F by (simp cong: map_cong)
  finally show ?thesis .
qed

lemma kraus_to_ptm_entry:
  assumes "length bases_in = n" "length bases_out = n" "0 < n"
    and "\<forall>b \<in> set bases_in. basis_ok d b" "\<forall>b \<in> set bases_out. basis_ok d b"
    and "kraus_ok m (d ^ n) kraus" "6 * n < einsum_symbols"
    and "list_all2 (<) x (map dim_pauli bases_out)" "list_all2 (<) y (map dim_pauli bases_in)"
    and "kraus_to_ptm kraus bases_in bases_out = Inr ptm"
  shows "lookup ptm (x @ y)
      = Re (ptm_sum m (d ^ n) (tensor_op d bases_out x) (kraus_op kraus) (tensor_op d bases_in y))"
proof -
  have lx: "length x = n" using assms(8,2) by (auto dest: list_all2_lengthD)
  have v: "list_all2 (<) (x @ y) (map dim_pauli bases_out @ map dim_pauli bases_in)"
    using assms(8,9) by (rule list_all2_appendI)
  from assms(10) have "ptm = Tensor (map dim_pauli bases_out @ map dim_pauli bases_in)
       (map (\<lambda>vals. Re (ptm_sum m (d ^ n) (tensor_op d bases_out (take n vals)) (kraus_op kraus)
                           (tensor_op d bases_in (drop n vals))))
            (indices (map dim_pauli bases_out @ map dim_pauli bases_in)))"
    unfolding kraus_to_ptm_eval[OF assms(1-7)] by simp
  then show ?thesis
    using lx by (simp only: lookup_Tensor_indices[OF v] take_all drop_all append_eq_conv_conj
        take_append drop_append) simp
qed

subsection \<open>Hermitian bases give a real contraction\<close>

lemma hermitian_tensor_op:
  assumes "length bs = n" "length xs = n"
    and "\<And>i. i < n \<Longrightarrow> hermitian d (basis_op (bs ! i) (xs ! i))"
  shows "hermitian (d ^ n) (tensor_op d bs xs)"
  unfolding hermitian_def tensor_op_digits[OF assms(1,2)]
proof (intro allI impI)
  fix p q assume p: "p < d ^ n" and q: "q < d ^ n"
  have e: "basis_op (bs ! i) (xs ! i) (digits d n q ! i) (digits d n p ! i)
      = cnj (basis_op (bs ! i) (xs ! i) (digits d n p ! i) (digits d n q ! i))" if "i < n" for i
  proof -
    from assms(3)[OF that] have "hermitian d (basis_op (bs ! i) (xs ! i))" .
    with digits_less[OF p that] digits_less[OF q that] show ?thesis
      unfolding hermitian_def by blast
  qed
  have "(\<Prod>i<n. basis_op (bs ! i) (xs ! i) (digits d n q ! i) (digits d n p ! i))
      = (\<Prod>i<n. cnj (basis_op (bs ! i) (xs ! i) (digits d n p ! i) (digits d n q ! i)))"
    by (rule prod.cong[OF refl]) (simp only: lessThan_iff e)
  then show "(\<Prod>i<n. basis_op (bs ! i) (xs ! i) (digits d n q ! i) (digits d n p ! i))
      = cnj (\<Prod>i<n. basis_op (bs ! i) (xs ! i) (digits d n p ! i) (digits d n q ! i))"
    by (simp only: cnj_prod)
qed

lemma mult_ac_4: "(a::complex) * b * c * e = a * e * c * b"
  by (simp add: mult.commute mult.left_commute)

lemma hermitianD: "hermitian D A \<Longrightarrow> i < D \<Longrightarrow> j < D \<Longrightarrow> cnj (A i j) = A j i"
  unfolding hermitian_def by metis

lemma ptm_sum_cnj:
  assumes "hermitian D BO" "hermitian D BI"
  shows "cnj (ptm_sum m D BO K BI) = ptm_sum m D BO K BI"
proof -
  have "cnj (ptm_sum m D BO K BI)
      = (\<Sum>z<m. \<Sum>pa<D. \<Sum>pb<D. \<Sum>pc<D. \<Sum>pe<D.
           cnj (BO pa pb) * cnj (K z pb pc) * cnj (BI pc pe) * K z pa pe)"
    by (simp add: ptm_sum_expand)
  also have "\<dots> = (\<Sum>z<m. \<Sum>pa<D. \<Sum>pb<D. \<Sum>pc<D. \<Sum>pe<D.
           BO pb pa * cnj (K z pb pc) * BI pe pc * K z pa pe)"
  proof (intro sum.cong refl)
    fix z pa pb pc pe
    assume "pa \<in> {..<D}" "pb \<in> {..<D}" "pc \<in> {..<D}" "pe \<in> {..<D}"
    then have "cnj (BO pa pb) = BO pb pa" "cnj (BI pc pe) = BI pe pc"
      using assms by (simp_all add: hermitianD)
    then show "cnj (BO pa pb) * cnj (K z pb pc) * cnj (BI pc pe) * K z pa pe
        = BO pb pa * cnj (K z pb pc) * BI pe pc * K z pa pe" by simp
  qed
  also have "\<dots> = (\<Sum>z<m. \<Sum>pb<D. \<Sum>pa<D. \<Sum>pc<D. \<Sum>pe<D.
           BO pb pa * cnj (K z pb pc) * BI pe pc * K z pa pe)"
    by (rule sum.cong[OF refl]) (rule sum.swap)
  also have "\<dots> = (\<Sum>z<m. \<Sum>pb<D. \<Sum>pa<D. \<Sum>pe<D. \<Sum>pc<D.
           BO pb pa * cnj (K z pb pc) * BI pe pc * K z pa pe)"
    by (rule sum.cong[OF refl], rule sum.cong[OF refl], rule sum.cong[OF refl], rule sum.swap)
  also have "\<dots> = ptm_sum m D BO K BI"
    unfolding ptm_sum_expand by (intro sum.cong refl) (rule mult_ac_4)
  finally show ?thesis .
qed

lemma ptm_sum_real:
  assumes "hermitian D BO" "hermitian D BI"
  shows "complex_of_real (Re (ptm_sum m D BO K BI)) = ptm_sum m D BO K BI"
  using ptm_sum_cnj[OF assms, of m K] by (simp add: Reals_cnj_iff[symmetric])

subsection \<open>Kraus stacks and bases that \<open>kraus_to_ptm\<close> rejects\<close>

lemma kraus_to_ptm_unfold:
  assumes "length (b0 # bs) = n" "length bases_out = n" "dims kraus = m # ds"
    and "prod_list (m # replicate (2 * n) (dim_hilbert b0)) = prod_list (dims kraus)"
  shows "kraus_to_ptm kraus (b0 # bs) bases_out
     = map_sum id (tmap Re)
         (einsum (einsum_args n (Tensor (m # replicate (2 * n) (dim_hilbert b0)) (elems kraus))
                    (b0 # bs) bases_out)
            (map (\<lambda>i. 4 * n + i) [0..<2 * n]))"
proof -
  have rs: "reshape kraus (m # replicate (2 * n) (dim_hilbert b0))
      = Inr (Tensor (m # replicate (2 * n) (dim_hilbert b0)) (elems kraus))"
    unfolding reshape_def using assms(4) by simp
  show ?thesis
    unfolding kraus_to_ptm_def list.case Let_def assms(1,2,3) rs sum.case
    by (simp only: simp_thms if_False)
qed

lemma kraus_to_ptm_label_overflow:
  assumes "length (b0 # bs) = n" "length bases_out = n" "dims kraus = m # ds"
    and "prod_list (m # replicate (2 * n) (dim_hilbert b0)) = prod_list (dims kraus)"
    and "einsum_symbols \<le> 6 * n"
  shows "kraus_to_ptm kraus (b0 # bs) bases_out = Inl IndexError"
proof -
  let ?K = "Tensor (m # replicate (2 * n) (dim_hilbert b0)) (elems kraus)"
  have "6 * n \<in> set (concat (map snd (einsum_args n ?K (b0 # bs) bases_out)))"
    by (simp add: einsum_args_def)
  then have "\<exists>l \<in> set (concat (map snd (einsum_args n ?K (b0 # bs) bases_out))
        @ map (\<lambda>i. 4 * n + i) [0..<2 * n]). einsum_symbols \<le> l"
    using assms(5) by auto
  then have "einsum (einsum_args n ?K (b0 # bs) bases_out) (map (\<lambda>i. 4 * n + i) [0..<2 * n])
      = Inl IndexError"
    unfolding einsum_def Let_def by (simp only: if_True)
  then show ?thesis
    unfolding kraus_to_ptm_unfold[OF assms(1-4)] by simp
qed

lemma all_less_2: "(\<forall>i<2::nat. P i) \<longleftrightarrow> P 0 \<and> P 1"
  by (auto simp: less_2_cases_iff)

lemma qubit_diag_ok: "basis_ok 2 qubit_diag"
  by (simp add: basis_ok_def qubit_diag_def)

lemma identity_kraus_ok: "kraus_ok 1 D (identity_kraus D)"
  by (simp add: kraus_ok_def identity_kraus_def)

lemma qubit_diag_hermitian: "hermitian_basis 2 qubit_diag"
  by (simp add: hermitian_basis_def hermitian_def all_less_2 basis_op_def lookup_def bcast_def
      qubit_diag_def)

lemma square_eq_nat: "(a::nat) * a = b * b \<Longrightarrow> a = b"
  by (metis mult_cancel2 nat_mult_eq_cancel_disj mult_le_mono le_antisym linorder_le_cases mult_eq_0_iff nat_mult_le_cancel_disj)

subsection \<open>The trace of a Kronecker product, and identity elements\<close>

lemma tr_kron_list:
  "tr (d ^ length Ms) (kron_list d Ms) = (\<Prod>i<length Ms. tr d (Ms ! i))"
proof (induction Ms)
  case Nil
  then show ?case by (simp add: tr_def)
next
  case (Cons A As)
  let ?k = "length As"
  have "tr (d ^ length (A # As)) (kron_list d (A # As))
      = (\<Sum>p<d * d ^ ?k. A (p div d ^ ?k) (p div d ^ ?k) * kron_list d As (p mod d ^ ?k) (p mod d ^ ?k))"
    by (simp add: tr_def)
  also have "\<dots> = (\<Sum>v<d. \<Sum>q<d ^ ?k. A v v * kron_list d As q q)"
    by (rule sum_div_mod)
  also have "\<dots> = (\<Sum>v<d. A v v) * (\<Sum>q<d ^ ?k. kron_list d As q q)"
    by (simp add: sum_product)
  also have "\<dots> = tr d A * (\<Prod>i<?k. tr d (As ! i))"
    using Cons.IH by (simp add: tr_def)
  also have "\<dots> = (\<Prod>i<length (A # As). tr d ((A # As) ! i))"
    by (simp add: prod.lessThan_Suc_shift del: prod.lessThan_Suc)
  finally show ?case .
qed

lemma nth_map2: "i < length bs \<Longrightarrow> i < length xs \<Longrightarrow> map2 f bs xs ! i = f (bs ! i) (xs ! i)"
  by simp

lemma tr_tensor_op:
  assumes "length bs = n" "length xs = n"
  shows "tr (d ^ n) (tensor_op d bs xs) = (\<Prod>i<n. tr d (basis_op (bs ! i) (xs ! i)))"
proof -
  have l: "length (map2 basis_op bs xs) = n"
    unfolding length_map length_zip assms by simp
  have e: "map2 basis_op bs xs ! i = basis_op (bs ! i) (xs ! i)" if "i < n" for i
    by (rule nth_map2) (simp_all only: assms that)
  have "tr (d ^ n) (tensor_op d bs xs) = (\<Prod>i<n. tr d (map2 basis_op bs xs ! i))"
    using tr_kron_list[of d "map2 basis_op bs xs"] unfolding l tensor_op_def .
  also have "\<dots> = (\<Prod>i<n. tr d (basis_op (bs ! i) (xs ! i)))"
    by (rule prod.cong[OF refl]) (simp only: lessThan_iff e)
  finally show ?thesis .
qed

lemma digits_inject:
  assumes "p < d ^ k" "q < d ^ k" "digits d k p = digits d k q"
  shows "p = q"
  using flat_index_digits[OF assms(1)] flat_index_digits[OF assms(2)] assms(3) by metis

lemma tensor_op_identity:
  assumes "length bs = n" "\<forall>b \<in> set bs. identity_first d b" "p < d ^ n" "q < d ^ n"
  shows "tensor_op d bs (replicate n 0) p q
       = (if p = q then complex_of_real (1 / sqrt (real d)) ^ n else 0)"
proof -
  let ?c = "complex_of_real (1 / sqrt (real d))"
  have e: "basis_op (bs ! i) (replicate n 0 ! i) (digits d n p ! i) (digits d n q ! i)
      = (if digits d n p ! i = digits d n q ! i then ?c else 0)" if "i < n" for i
  proof -
    have "identity_first d (bs ! i)" using assms(1,2) that by simp
    with digits_less[OF assms(3) that] digits_less[OF assms(4) that] that show ?thesis
      unfolding identity_first_def by simp
  qed
  have "tensor_op d bs (replicate n 0) p q
      = (\<Prod>i<n. if digits d n p ! i = digits d n q ! i then ?c else 0)"
    unfolding tensor_op_digits[OF assms(1) length_replicate]
    by (rule prod.cong[OF refl]) (simp only: lessThan_iff e)
  also have "\<dots> = (if p = q then ?c ^ n else 0)"
  proof (cases "p = q")
    case True
    then show ?thesis by simp
  next
    case False
    then have "digits d n p \<noteq> digits d n q" using digits_inject[OF assms(3,4)] by blast
    then obtain i where "i < n" "digits d n p ! i \<noteq> digits d n q ! i"
      by (auto simp: list_eq_iff_nth_eq)
    then have "(\<Prod>i<n. if digits d n p ! i = digits d n q ! i then ?c else 0) = 0"
      by (intro prod_zero) auto
    with False show ?thesis by simp
  qed
  finally show ?thesis .
qed

lemma tr_basis_element:
  assumes "identity_first d b" "orthonormal_basis d b" "y < dim_pauli b" "0 < d"
  shows "tr d (basis_op b y) = (if y = 0 then complex_of_real (sqrt (real d)) else 0)"
proof -
  let ?c = "complex_of_real (1 / sqrt (real d))"
  have p0: "0 < dim_pauli b" using assms(1) by (simp add: identity_first_def)
  have id: "basis_op b 0 k i = (if k = i then ?c else 0)" if "k < d" "i < d" for k i
    using assms(1) that by (simp add: identity_first_def)
  have "tr d (mat_mul d (dagger (basis_op b 0)) (basis_op b y))
      = (\<Sum>i<d. \<Sum>k<d. cnj (basis_op b 0 k i) * basis_op b y k i)"
    by (simp add: tr_def mat_mul_def dagger_def)
  also have "\<dots> = (\<Sum>i<d. \<Sum>k<d. (if k = i then ?c * basis_op b y i i else 0))"
    by (intro sum.cong refl) (simp add: id)
  also have "\<dots> = (\<Sum>i<d. ?c * basis_op b y i i)"
    by (intro sum.cong refl) simp
  also have "\<dots> = ?c * tr d (basis_op b y)"
    by (simp add: tr_def sum_distrib_left)
  finally have eq: "?c * tr d (basis_op b y) = (if 0 = y then 1 else 0)"
    using assms(2,3) p0 unfolding orthonormal_basis_def by simp
  have sc: "complex_of_real (sqrt (real d)) * ?c = 1"
    using assms(4) by (simp flip: of_real_mult)
  have "tr d (basis_op b y) = (complex_of_real (sqrt (real d)) * ?c) * tr d (basis_op b y)"
    by (simp only: sc mult_1_left)
  also have "\<dots> = complex_of_real (sqrt (real d)) * (?c * tr d (basis_op b y))"
    by (simp only: mult.assoc)
  also have "\<dots> = complex_of_real (sqrt (real d)) * (if 0 = y then 1 else 0)"
    by (simp only: eq)
  finally show ?thesis by (cases "y = 0") simp_all
qed

subsection \<open>An identity as output element and a trace-preserving stack\<close>

lemma sum_delta_left:
  fixes C :: complex and D :: nat
  assumes "pa < D"
  shows "(\<Sum>pb<D. (if pa = pb then C else 0) * H pb) = C * H pa"
proof -
  have "(\<Sum>pb<D. (if pa = pb then C else 0) * H pb) = (\<Sum>pb\<in>{..<D}. if pa = pb then C * H pb else 0)"
    by (rule sum.cong[OF refl]) simp
  also have "\<dots> = (if pa \<in> {..<D} then C * H pa else 0)"
    by (rule sum.delta') simp
  also have "\<dots> = C * H pa" using assms by simp
  finally show ?thesis .
qed

lemma ptm_sum_identity_out:
  assumes BO: "\<And>p q. p < D \<Longrightarrow> q < D \<Longrightarrow> BO p q = (if p = q then C else 0)"
    and tp: "trace_preserving m D K"
  shows "ptm_sum m D BO K BI = C * tr D BI"
proof -
  have tpD: "(\<Sum>z<m. \<Sum>pa<D. cnj (K z pa pe) * K z pa pc) = (if pe = pc then 1 else 0)"
    if "pe < D" "pc < D" for pe pc
    using tp that unfolding trace_preserving_def mat_mul_def dagger_def by simp
  have "ptm_sum m D BO K BI
      = (\<Sum>z<m. \<Sum>pa<D. \<Sum>pb<D. (if pa = pb then C else 0)
           * (\<Sum>pc<D. \<Sum>pe<D. K z pb pc * BI pc pe * cnj (K z pa pe)))"
    unfolding ptm_sum_expand
  proof (intro sum.cong refl)
    fix z pa pb assume "pa \<in> {..<D}" "pb \<in> {..<D}"
    then have "BO pa pb = (if pa = pb then C else 0)" using BO by simp
    then show "(\<Sum>pc<D. \<Sum>pe<D. BO pa pb * K z pb pc * BI pc pe * cnj (K z pa pe))
        = (if pa = pb then C else 0) * (\<Sum>pc<D. \<Sum>pe<D. K z pb pc * BI pc pe * cnj (K z pa pe))"
      by (simp only: sum_distrib_left mult.assoc)
  qed
  also have "\<dots> = (\<Sum>z<m. \<Sum>pa<D. C * (\<Sum>pc<D. \<Sum>pe<D. K z pa pc * BI pc pe * cnj (K z pa pe)))"
    by (intro sum.cong refl) (simp only: lessThan_iff sum_delta_left)
  also have "\<dots> = C * (\<Sum>z<m. \<Sum>pa<D. \<Sum>pc<D. \<Sum>pe<D. BI pc pe * (cnj (K z pa pe) * K z pa pc))"
    by (simp add: sum_distrib_left mult_ac)
  also have "(\<Sum>z<m. \<Sum>pa<D. \<Sum>pc<D. \<Sum>pe<D. BI pc pe * (cnj (K z pa pe) * K z pa pc))
      = (\<Sum>z<m. \<Sum>pc<D. \<Sum>pa<D. \<Sum>pe<D. BI pc pe * (cnj (K z pa pe) * K z pa pc))"
    by (rule sum.cong[OF refl]) (rule sum.swap)
  also have "\<dots> = (\<Sum>pc<D. \<Sum>z<m. \<Sum>pa<D. \<Sum>pe<D. BI pc pe * (cnj (K z pa pe) * K z pa pc))"
    by (rule sum.swap)
  also have "\<dots> = (\<Sum>pc<D. \<Sum>z<m. \<Sum>pe<D. \<Sum>pa<D. BI pc pe * (cnj (K z pa pe) * K z pa pc))"
    by (rule sum.cong[OF refl], rule sum.cong[OF refl], rule sum.swap)
  also have "\<dots> = (\<Sum>pc<D. \<Sum>pe<D. \<Sum>z<m. \<Sum>pa<D. BI pc pe * (cnj (K z pa pe) * K z pa pc))"
    by (rule sum.cong[OF refl], rule sum.swap)
  also have "\<dots> = (\<Sum>pc<D. \<Sum>pe<D. BI pc pe * (\<Sum>z<m. \<Sum>pa<D. cnj (K z pa pe) * K z pa pc))"
    by (simp only: sum_distrib_left)
  also have "\<dots> = (\<Sum>pc<D. \<Sum>pe<D. BI pc pe * (if pe = pc then 1 else 0))"
    by (intro sum.cong refl) (simp only: lessThan_iff tpD)
  also have "\<dots> = (\<Sum>pc<D. \<Sum>pe\<in>{..<D}. if pc = pe then BI pc pe else 0)"
    by (intro sum.cong refl) auto
  also have "\<dots> = (\<Sum>pc<D. BI pc pc)"
  proof (rule sum.cong[OF refl])
    fix pc assume "pc \<in> {..<D}"
    have "(\<Sum>pe\<in>{..<D}. if pc = pe then BI pc pe else 0) = (if pc \<in> {..<D} then BI pc pc else 0)"
      by (rule sum.delta') simp
    with \<open>pc \<in> {..<D}\<close> show "(\<Sum>pe\<in>{..<D}. if pc = pe then BI pc pe else 0) = BI pc pc"
      by simp
  qed
  finally show ?thesis by (simp add: tr_def)
qed

subsection \<open>The first row of a tensor flattened to a matrix\<close>

lemma indices_nth_inverse:
  "c < prod_list ds \<Longrightarrow> list_all2 (<) (indices ds ! c) ds \<and> flat_index ds (indices ds ! c) = c"
proof (induction ds arbitrary: c)
  case Nil
  then show ?case by simp
next
  case (Cons d ds)
  let ?P = "prod_list ds"
  let ?xss = "map (\<lambda>i. map ((#) i) (indices ds)) [0..<d]"
  have P0: "0 < ?P" using Cons.prems by (cases "?P = 0") auto
  have i: "c div ?P < d" using Cons.prems P0 by (simp add: less_mult_imp_div_less mult.commute)
  have j: "c mod ?P < ?P" using P0 by simp
  have c: "c = (c div ?P) * ?P + c mod ?P" by simp
  have "concat ?xss ! ((c div ?P) * ?P + c mod ?P) = ?xss ! (c div ?P) ! (c mod ?P)"
    using i j by (intro nth_concat_uniform) (auto simp: length_indices)
  also have "\<dots> = (c div ?P) # indices ds ! (c mod ?P)"
    using i j by (simp add: length_indices)
  finally have "indices (d # ds) ! c = (c div ?P) # indices ds ! (c mod ?P)"
    using c by simp
  with Cons.IH[OF j] i show ?case by simp
qed

lemma flat_index_zeros: "flat_index ds (replicate (length ds) 0) = 0"
  by (induction ds) auto

lemma flat_index_leading_zeros:
  "flat_index (ps @ ds) (replicate (length ps) 0 @ ys) = flat_index ds ys"
  by (induction ps) auto

lemma zeros_valid: "\<forall>d \<in> set ds. 0 < d \<Longrightarrow> list_all2 (<) (replicate (length ds) 0) ds"
  by (induction ds) auto

lemma indices_nth_first_rows:
  assumes "\<forall>d \<in> set ps. 0 < d" "c < prod_list ds"
  shows "indices (ps @ ds) ! c = replicate (length ps) 0 @ indices ds ! c"
proof -
  let ?y = "indices ds ! c"
  have v: "list_all2 (<) (replicate (length ps) 0 @ ?y) (ps @ ds)"
    using zeros_valid[OF assms(1)] indices_nth_inverse[OF assms(2)] by (intro list_all2_appendI) auto
  have "flat_index (ps @ ds) (replicate (length ps) 0 @ ?y) = c"
    using indices_nth_inverse[OF assms(2)] by (simp add: flat_index_leading_zeros)
  with indices_nth[OF v] show ?thesis by simp
qed

lemma indices_nth_zeros_iff:
  assumes "\<forall>d \<in> set ds. 0 < d" "c < prod_list ds"
  shows "indices ds ! c = replicate (length ds) 0 \<longleftrightarrow> c = 0"
proof
  assume "indices ds ! c = replicate (length ds) 0"
  with indices_nth_inverse[OF assms(2)] flat_index_zeros[of ds] show "c = 0" by simp
next
  assume "c = 0"
  with indices_nth[OF zeros_valid[OF assms(1)]] flat_index_zeros[of ds]
  show "indices ds ! c = replicate (length ds) 0" by simp
qed

lemma prod_list_pos: "\<forall>d \<in> set ds. 0 < d \<Longrightarrow> 0 < prod_list ds" for ds :: "nat list"
  by (induction ds) auto

lemma first_row_list:
  fixes F :: "nat list \<Rightarrow> real"
  assumes "\<forall>d \<in> set ps. 0 < d" "\<forall>d \<in> set ds. 0 < d"
    and "\<And>y. list_all2 (<) y ds \<Longrightarrow>
           F (replicate (length ps) 0 @ y) = (if y = replicate (length ds) 0 then 1 else 0)"
  shows "take (prod_list ds) (map F (indices (ps @ ds))) = 1 # replicate (prod_list ds - 1) 0"
proof (rule nth_equalityI)
  have "prod_list ds \<le> prod_list ps * prod_list ds"
    using prod_list_pos[OF assms(1)] by simp
  then show l: "length (take (prod_list ds) (map F (indices (ps @ ds))))
      = length (1 # replicate (prod_list ds - 1) (0::real))"
    using prod_list_pos[OF assms(2)] by (simp add: length_indices)
  fix c assume "c < length (take (prod_list ds) (map F (indices (ps @ ds))))"
  then have c: "c < prod_list ds" by simp
  then have c': "c < length (indices (ps @ ds))"
    using prod_list_pos[OF assms(1)] by (simp add: length_indices) (metis One_nat_def Suc_leI less_le_trans mult.commute mult_le_mono2 nat_mult_1_right)
  have "take (prod_list ds) (map F (indices (ps @ ds))) ! c = F (indices (ps @ ds) ! c)"
    using c c' by simp
  also have "\<dots> = F (replicate (length ps) 0 @ indices ds ! c)"
    by (simp only: indices_nth_first_rows[OF assms(1) c])
  also have "\<dots> = (if indices ds ! c = replicate (length ds) 0 then 1 else 0)"
    using indices_nth_inverse[OF c] by (intro assms(3)) simp
  also have "\<dots> = (if c = 0 then 1 else 0)"
    by (simp only: indices_nth_zeros_iff[OF assms(2) c])
  also have "\<dots> = (1 # replicate (prod_list ds - 1) 0) ! c"
    using c by (cases c) auto
  finally show "take (prod_list ds) (map F (indices (ps @ ds))) ! c
      = (1 # replicate (prod_list ds - 1) 0) ! c" .
qed

lemma first_row_entry:
  assumes "length bases_in = n" "length bases_out = n" "0 < d"
    and "\<forall>b \<in> set bases_out. identity_first d b"
    and "\<forall>b \<in> set bases_in. identity_first d b \<and> orthonormal_basis d b"
    and "trace_preserving m (d ^ n) K"
    and "list_all2 (<) y (map dim_pauli bases_in)"
  shows "ptm_sum m (d ^ n) (tensor_op d bases_out (replicate n 0)) K (tensor_op d bases_in y)
       = (if y = replicate n 0 then 1 else 0)"
proof -
  let ?c = "complex_of_real (1 / sqrt (real d))" and ?s = "complex_of_real (sqrt (real d))"
  have ly: "length y = n" using assms(1,7) by (auto dest: list_all2_lengthD)
  have sc: "?c * ?s = 1" using assms(3) by (simp flip: of_real_mult)
  have s0: "?s \<noteq> 0" using assms(3) by simp
  have "ptm_sum m (d ^ n) (tensor_op d bases_out (replicate n 0)) K (tensor_op d bases_in y)
      = ?c ^ n * tr (d ^ n) (tensor_op d bases_in y)"
    by (rule ptm_sum_identity_out[OF tensor_op_identity[OF assms(2,4)] assms(6)])
  also have "tr (d ^ n) (tensor_op d bases_in y) = (\<Prod>i<n. tr d (basis_op (bases_in ! i) (y ! i)))"
    by (rule tr_tensor_op[OF assms(1) ly])
  also have "\<dots> = (\<Prod>i<n. if y ! i = 0 then ?s else 0)"
  proof (rule prod.cong[OF refl])
    fix i assume "i \<in> {..<n}"
    then have i: "i < n" by simp
    then have b: "bases_in ! i \<in> set bases_in" using assms(1) by simp
    have "i < length y" using i ly by simp
    from list_all2_nthD[OF assms(7) this] have "y ! i < map dim_pauli bases_in ! i" .
    moreover have "map dim_pauli bases_in ! i = dim_pauli (bases_in ! i)"
      using i assms(1) by (intro nth_map) simp
    ultimately have "y ! i < dim_pauli (bases_in ! i)" by simp
    with b assms(5) show "tr d (basis_op (bases_in ! i) (y ! i)) = (if y ! i = 0 then ?s else 0)"
      by (intro tr_basis_element assms(3)) auto
  qed
  also have "\<dots> = (if y = replicate n 0 then ?s ^ n else 0)"
  proof (cases "y = replicate n 0")
    case True
    then show ?thesis by simp
  next
    case False
    then obtain i where "i < n" "y ! i \<noteq> 0" using ly by (auto simp: list_eq_iff_nth_eq)
    then have "(\<Prod>i<n. if y ! i = 0 then ?s else 0) = 0"
      by (intro prod_zero bexI[of _ i]) auto
    with False show ?thesis by simp
  qed
  also have "?c ^ n * (if y = replicate n 0 then ?s ^ n else 0) = (if y = replicate n 0 then 1 else 0)"
    using sc by (simp flip: power_mult_distrib)
  finally show ?thesis .
qed

subsection \<open>Evaluating an einsum whose labels have known extents\<close>

lemma einsum_eval:
  assumes ext: "\<And>l e. (l, e) \<in> set (axes ops) \<Longrightarrow> e = f l"
    and bound: "\<And>l. l \<in> set (concat (map snd ops) @ out) \<Longrightarrow> l < einsum_symbols"
    and ranks: "\<And>t ls. (t, ls) \<in> set ops \<Longrightarrow> length ls = length (dims t)"
    and out: "distinct out" "set out \<subseteq> fst ` set (axes ops)"
  shows "einsum ops out =
     Inr (Tensor (map f out)
       (map (\<lambda>vals. esum (map (\<lambda>l. (l, f l))
                           (filter (\<lambda>l. l \<notin> set out) (sort (remdups (map fst (axes ops))))))
                     (term_of ops) (env_of out vals))
            (indices (map f out))))"
proof -
  let ?ax = "axes ops"
  let ?summed = "filter (\<lambda>l. l \<notin> set out) (sort (remdups (map fst ?ax)))"
  have ld: "label_dim ?ax l = f l" if "l \<in> fst ` set ?ax" for l
  proof -
    from that obtain e where e: "(l, e) \<in> set ?ax" by force
    have "label_dim ?ax l = e" using e ext by (intro label_dim_unique) auto
    with ext[OF e] show ?thesis by simp
  qed
  have c1: "\<not> (\<exists>l \<in> set (concat (map snd ops) @ out). einsum_symbols \<le> l)"
    using bound by (meson not_le)
  have c2: "\<not> (\<exists>(t, ls) \<in> set ops. length ls \<noteq> length (dims t))"
    using ranks by fastforce
  have c3: "set out \<subseteq> set (sort (remdups (map fst ?ax)))" using out(2) by simp
  have c4: "\<not> (\<exists>(l, e) \<in> set ?ax. e \<noteq> 1 \<and> e \<noteq> label_dim ?ax l)"
  proof -
    have "e = label_dim ?ax l" if "(l, e) \<in> set ?ax" for l e
      using ext[OF that] ld[of l] that by force
    then show ?thesis by fastforce
  qed
  have ld_out: "map (label_dim ?ax) out = map f out"
    using ld out(2) by (intro map_cong refl) blast
  have ld_sum: "map (\<lambda>l. (l, label_dim ?ax l)) ?summed = map (\<lambda>l. (l, f l)) ?summed"
  proof (intro map_cong refl)
    fix l assume "l \<in> set ?summed"
    then have "l \<in> fst ` set ?ax" by auto
    from ld[OF this] show "(l, label_dim ?ax l) = (l, f l)" by simp
  qed
  show ?thesis
    unfolding einsum_def Let_def
    using c1 c2 out(1) c3 c4
    by (simp only: if_False if_True ld_out ld_sum simp_thms not_not)
qed

subsection \<open>What \<open>single_kraus_to_ptm\<close> returns\<close>

lemma sym_values:
  "sym CHR ''a'' = 0" "sym CHR ''b'' = 1" "sym CHR ''c'' = 2" "sym CHR ''d'' = 3"
  "sym CHR ''i'' = 8" "sym CHR ''j'' = 9" "sym CHR ''k'' = 10" "sym CHR ''l'' = 11"
  "sym CHR ''w'' = 22" "sym CHR ''x'' = 23" "sym CHR ''y'' = 24" "sym CHR ''z'' = 25"
  by (simp_all add: sym_def)

lemma kraus_lookup_cnj:
  assumes "kraus_ok m D kraus" "z < m" "p < D" "q < D"
  shows "lookup (tmap cnj kraus) [z, p, q] = cnj (kraus_op kraus z p q)"
proof -
  have dk: "dims kraus = [m, D, D]" and lk: "length (elems kraus) = m * D * D"
    using assms(1) by (auto simp: kraus_ok_def)
  have v: "list_all2 (<) [z, p, q] [m, D, D]" using assms by simp
  from flat_index_less[OF v] map2_bcast_valid[OF v]
  have "flat_index (dims kraus) (map2 bcast (dims kraus) [z, p, q]) < length (elems kraus)"
    by (simp add: dk lk)
  from lookup_tmap[OF this] show ?thesis by (simp add: kraus_op_def)
qed

lemma env_of_2:
  "env_of [a, b] [u, v] a = u" "a \<noteq> b \<Longrightarrow> env_of [a, b] [u, v] b = v"
  by (simp_all add: env_of_def)

lemma single_kraus_to_ptm_eval:
  assumes "basis_ok d b_in" "basis_ok d b_out" "kraus_ok m d kraus"
  shows "single_kraus_to_ptm kraus b_in b_out =
     Inr (Tensor [dim_pauli b_out, dim_pauli b_in]
       (map (\<lambda>vals. Re (ptm_sum m d (basis_op b_out (vals ! 0)) (kraus_op kraus)
                           (basis_op b_in (vals ! 1))))
            (indices [dim_pauli b_out, dim_pauli b_in])))"
proof -
  let ?po = "dim_pauli b_out" and ?pi = "dim_pauli b_in"
  let ?ops = "[(vectors b_out, [23, 0, 1]), (kraus, [25, 1, 2]),
               (vectors b_in, [24, 2, 3]), (tmap cnj kraus, [25, 0, 3::nat])]"
  let ?f = "\<lambda>l::nat. if l = 23 then ?po else if l = 24 then ?pi else if l = 25 then m else d"
  have dbo: "dims (vectors b_out) = [?po, d, d]" and dbi: "dims (vectors b_in) = [?pi, d, d]"
    using assms(1,2) by (auto simp: basis_ok_def)
  have dk: "dims kraus = [m, d, d]" using assms(3) by (simp add: kraus_ok_def)
  have ax: "axes ?ops = [(23, ?po), (0, d), (1, d), (25, m), (1, d), (2, d),
                         (24, ?pi), (2, d), (3, d), (25, m), (0, d), (3, d)]"
    by (simp add: axes_def dbo dbi dk tmap_def)
  let ?summed = "filter (\<lambda>l. l \<notin> set [23, 24]) (sort (remdups (map fst (axes ?ops))))"
  have ev: "einsum ?ops [23, 24] =
     Inr (Tensor (map ?f [23, 24])
       (map (\<lambda>vals. esum (map (\<lambda>l. (l, ?f l)) ?summed) (term_of ?ops) (env_of [23, 24] vals))
            (indices (map ?f [23, 24]))))"
  proof (rule einsum_eval)
    fix l e assume "(l, e) \<in> set (axes ?ops)"
    then show "e = ?f l" unfolding ax by auto
  next
    fix l assume "l \<in> set (concat (map snd ?ops) @ [23, 24])"
    then show "l < einsum_symbols" by (auto simp: einsum_symbols_def)
  next
    fix t ls assume "(t, ls) \<in> set ?ops"
    then show "length ls = length (dims t)" by (auto simp: dbo dbi dk tmap_def)
  next
    show "distinct [23, 24::nat]" by simp
    show "set [23, 24] \<subseteq> fst ` set (axes ?ops)" unfolding ax by simp
  qed
  have body: "esum (map (\<lambda>l. (l, ?f l)) ?summed) (term_of ?ops) (env_of [23, 24] vals)
      = ptm_sum m d (basis_op b_out (vals ! 0)) (kraus_op kraus) (basis_op b_in (vals ! 1))"
    if "vals \<in> set (indices [?po, ?pi])" for vals
  proof -
    from length_in_indices[OF that] obtain x y where vals: "vals = [x, y]"
      by (cases vals; cases "tl vals") auto
    have "esum (map (\<lambda>l. (l, ?f l)) ?summed) (term_of ?ops) (env_of [23, 24] vals)
        = esum (map (\<lambda>l. (l, ?f l)) [25, 0, 1, 2, 3]) (term_of ?ops) (env_of [23, 24] vals)"
    proof (rule esum_reorder)
      show "distinct ?summed" by simp
      show "distinct [25, 0, 1, 2, 3::nat]" by simp
      show "set ?summed = set [25, 0, 1, 2, 3]" unfolding ax by auto
    qed
    also have "\<dots> = (\<Sum>z<m. \<Sum>pa<d. \<Sum>pb<d. \<Sum>pc<d. \<Sum>pe<d.
        basis_op b_out x pa pb * kraus_op kraus z pb pc * basis_op b_in y pc pe
          * lookup (tmap cnj kraus) [z, pa, pe])"
      by (simp add: term_of_def vals env_of_2 basis_op_def kraus_op_def mult.assoc)
    also have "\<dots> = (\<Sum>z<m. \<Sum>pa<d. \<Sum>pb<d. \<Sum>pc<d. \<Sum>pe<d.
        basis_op b_out x pa pb * kraus_op kraus z pb pc * basis_op b_in y pc pe
          * cnj (kraus_op kraus z pa pe))"
      by (intro sum.cong refl) (simp add: kraus_lookup_cnj[OF assms(3)])
    finally show ?thesis by (simp add: ptm_sum_expand vals)
  qed
  have "single_kraus_to_ptm kraus b_in b_out = map_sum id (tmap Re) (einsum ?ops [23, 24])"
    by (simp add: single_kraus_to_ptm_def sym_values)
  also have "\<dots> = Inr (Tensor [?po, ?pi]
       (map (\<lambda>vals. Re (esum (map (\<lambda>l. (l, ?f l)) ?summed) (term_of ?ops) (env_of [23, 24] vals)))
            (indices [?po, ?pi])))"
    unfolding ev by (simp add: tmap_def comp_def)
  also have "\<dots> = Inr (Tensor [?po, ?pi]
       (map (\<lambda>vals. Re (ptm_sum m d (basis_op b_out (vals ! 0)) (kraus_op kraus)
                           (basis_op b_in (vals ! 1))))
            (indices [?po, ?pi])))"
    using body by (simp cong: map_cong)
  finally show ?thesis .
qed

subsection \<open>The Gell-Mann basis of a qubit and the amplitude-damping stack\<close>

lemma sum_lessThan_2: "(\<Sum>i<2::nat. f i) = f 0 + (f (Suc 0) :: 'a :: comm_monoid_add)"
  by (simp add: numeral_2_eq_2)

lemma gm_ok: "basis_ok 2 gell_mann2"
  by (simp add: basis_ok_def gell_mann2_def Let_def)

lemma damp_ok: "kraus_ok 2 2 damp_kraus"
  by (simp add: kraus_ok_def damp_kraus_def)

lemma gm_table:
  "basis_op gell_mann2 0 0 0 = complex_of_real (1 / sqrt 2)" "basis_op gell_mann2 0 0 1 = 0"
  "basis_op gell_mann2 0 1 0 = 0" "basis_op gell_mann2 0 1 1 = complex_of_real (1 / sqrt 2)"
  "basis_op gell_mann2 1 0 0 = 0" "basis_op gell_mann2 1 0 1 = complex_of_real (1 / sqrt 2)"
  "basis_op gell_mann2 1 1 0 = complex_of_real (1 / sqrt 2)" "basis_op gell_mann2 1 1 1 = 0"
  "basis_op gell_mann2 2 0 0 = 0" "basis_op gell_mann2 2 0 1 = - \<i> * complex_of_real (1 / sqrt 2)"
  "basis_op gell_mann2 2 1 0 = \<i> * complex_of_real (1 / sqrt 2)" "basis_op gell_mann2 2 1 1 = 0"
  "basis_op gell_mann2 3 0 0 = complex_of_real (1 / sqrt 2)" "basis_op gell_mann2 3 0 1 = 0"
  "basis_op gell_mann2 3 1 0 = 0" "basis_op gell_mann2 3 1 1 = - complex_of_real (1 / sqrt 2)"
  by (simp_all add: basis_op_def lookup_def bcast_def gell_mann2_def Let_def)

lemma damp_table:
  "kraus_op damp_kraus 0 0 0 = 1" "kraus_op damp_kraus 0 0 1 = 0"
  "kraus_op damp_kraus 0 1 0 = 0" "kraus_op damp_kraus 0 1 1 = complex_of_real (1 / sqrt 2)"
  "kraus_op damp_kraus 1 0 0 = 0" "kraus_op damp_kraus 1 0 1 = complex_of_real (1 / sqrt 2)"
  "kraus_op damp_kraus 1 1 0 = 0" "kraus_op damp_kraus 1 1 1 = 0"
  by (simp_all add: kraus_op_def lookup_def bcast_def damp_kraus_def real_sqrt_divide)

lemmas gm_table' = gm_table[unfolded One_nat_def]

lemmas damp_table' = damp_table[unfolded One_nat_def]

lemma upt_4: "[0..<4] = [0, Suc 0, 2, 3]"
  by (simp add: upt_rec numeral_eq_Suc)

lemma indices_4_4:
  "indices [4, 4] =
     [[0, 0], [0, Suc 0], [0, 2], [0, 3],
      [Suc 0, 0], [Suc 0, Suc 0], [Suc 0, 2], [Suc 0, 3],
      [2, 0], [2, Suc 0], [2, 2], [2, 3],
      [3, 0], [3, Suc 0], [3, 2], [3, 3]]"
  by (simp add: upt_4)

lemma tensor_op_single: "tensor_op d [b] [x] = basis_op b x"
  by (rule ext, rule ext) (simp add: tensor_op_def)

lemma damp_entries:
  "Re (ptm_sum 2 2 (basis_op gell_mann2 0) (kraus_op damp_kraus) (basis_op gell_mann2 0)) = 1"
  "Re (ptm_sum 2 2 (basis_op gell_mann2 0) (kraus_op damp_kraus) (basis_op gell_mann2 (Suc 0))) = 0"
  "Re (ptm_sum 2 2 (basis_op gell_mann2 0) (kraus_op damp_kraus) (basis_op gell_mann2 2)) = 0"
  "Re (ptm_sum 2 2 (basis_op gell_mann2 0) (kraus_op damp_kraus) (basis_op gell_mann2 3)) = 0"
  "Re (ptm_sum 2 2 (basis_op gell_mann2 (Suc 0)) (kraus_op damp_kraus) (basis_op gell_mann2 0)) = 0"
  "Re (ptm_sum 2 2 (basis_op gell_mann2 (Suc 0)) (kraus_op damp_kraus) (basis_op gell_mann2 (Suc 0))) = sqrt (1 / 2)"
  "Re (ptm_sum 2 2 (basis_op gell_mann2 (Suc 0)) (kraus_op damp_kraus) (basis_op gell_mann2 2)) = 0"
  "Re (ptm_sum 2 2 (basis_op gell_mann2 (Suc 0)) (kraus_op damp_kraus) (basis_op gell_mann2 3)) = 0"
  "Re (ptm_sum 2 2 (basis_op gell_mann2 2) (kraus_op damp_kraus) (basis_op gell_mann2 0)) = 0"
  "Re (ptm_sum 2 2 (basis_op gell_mann2 2) (kraus_op damp_kraus) (basis_op gell_mann2 (Suc 0))) = 0"
  "Re (ptm_sum 2 2 (basis_op gell_mann2 2) (kraus_op damp_kraus) (basis_op gell_mann2 2)) = sqrt (1 / 2)"
  "Re (ptm_sum 2 2 (basis_op gell_mann2 2) (kraus_op damp_kraus) (basis_op gell_mann2 3)) = 0"
  "Re (ptm_sum 2 2 (basis_op gell_mann2 3) (kraus_op damp_kraus) (basis_op gell_mann2 0)) = 1 / 2"
  "Re (ptm_sum 2 2 (basis_op gell_mann2 3) (kraus_op damp_kraus) (basis_op gell_mann2 (Suc 0))) = 0"
  "Re (ptm_sum 2 2 (basis_op gell_mann2 3) (kraus_op damp_kraus) (basis_op gell_mann2 2)) = 0"
  "Re (ptm_sum 2 2 (basis_op gell_mann2 3) (kraus_op damp_kraus) (basis_op gell_mann2 3)) = 1 / 2"
  by (simp_all add: ptm_sum_expand sum_lessThan_2 gm_table' damp_table' real_sqrt_divide
      flip: of_real_mult)

subsection \<open>Converting a PTM to the basis it is in\<close>

lemma gram_orthonormal:
  assumes "hermitian_basis d b" "orthonormal_basis d b" "x < dim_pauli b" "y < dim_pauli b"
  shows "(\<Sum>i<d. \<Sum>j<d. basis_op b x i j * basis_op b y j i) = (if x = y then 1 else 0)"
proof -
  have h: "hermitian d (basis_op b x)" using assms(1,3) by (simp add: hermitian_basis_def)
  have "(\<Sum>i<d. \<Sum>j<d. basis_op b x i j * basis_op b y j i)
      = (\<Sum>i<d. \<Sum>j<d. cnj (basis_op b x j i) * basis_op b y j i)"
  proof (intro sum.cong refl)
    fix i j assume "i \<in> {..<d}" "j \<in> {..<d}"
    then show "basis_op b x i j * basis_op b y j i = cnj (basis_op b x j i) * basis_op b y j i"
      using hermitianD[OF h, of j i] by simp
  qed
  also have "\<dots> = tr d (mat_mul d (dagger (basis_op b x)) (basis_op b y))"
    by (simp add: tr_def mat_mul_def dagger_def)
  also have "\<dots> = (if x = y then 1 else 0)"
    using assms(2,3,4) by (simp add: orthonormal_basis_def)
  finally show ?thesis .
qed

lemma map_lookup_indices:
  assumes "length (elems t) = prod_list (dims t)"
  shows "Tensor (dims t) (map (lookup t) (indices (dims t))) = t"
proof -
  have "map (lookup t) (indices (dims t)) = elems t"
  proof (rule nth_equalityI)
    show "length (map (lookup t) (indices (dims t))) = length (elems t)"
      using assms by (simp add: length_indices)
    fix c assume "c < length (map (lookup t) (indices (dims t)))"
    then have c: "c < prod_list (dims t)" by (simp add: length_indices)
    from indices_nth_inverse[OF c] map2_bcast_valid[of "indices (dims t) ! c" "dims t"]
    show "map (lookup t) (indices (dims t)) ! c = elems t ! c"
      using c by (simp add: length_indices lookup_def)
  qed
  then show ?thesis by (cases t) simp
qed

lemma sum_delta_right:
  fixes H :: "nat \<Rightarrow> complex" and D :: nat
  assumes "w < D"
  shows "(\<Sum>z<D. H z * (if z = w then 1 else 0)) = H w"
proof -
  have "(\<Sum>z<D. H z * (if z = w then 1 else 0)) = (\<Sum>z\<in>{..<D}. if z = w then H z else 0)"
    by (rule sum.cong[OF refl]) simp
  also have "\<dots> = (if w \<in> {..<D} then H w else 0)"
    by (rule sum.delta) simp
  also have "\<dots> = H w" using assms by simp
  finally show ?thesis .
qed

lemma convert_sum:
  fixes P :: "nat \<Rightarrow> nat \<Rightarrow> complex"
  assumes g: "\<And>u v. u < p \<Longrightarrow> v < p \<Longrightarrow> (\<Sum>i<d. \<Sum>j<d. B u i j * B v j i) = (if u = v then 1 else 0)"
    and "x < p" "w < p"
  shows "(\<Sum>y<p. \<Sum>i<d. \<Sum>j<d. \<Sum>z<p. \<Sum>k<d. \<Sum>l<d.
            B x i j * B y j i * P y z * B z k l * B w l k) = P x w"
proof -
  have "(\<Sum>y<p. (\<Sum>i<d. \<Sum>j<d. B x i j * B y j i)
            * (\<Sum>z<p. P y z * (\<Sum>k<d. \<Sum>l<d. B z k l * B w l k)))
      = (\<Sum>y<p. \<Sum>i<d. \<Sum>j<d. (B x i j * B y j i)
            * (\<Sum>z<p. P y z * (\<Sum>k<d. \<Sum>l<d. B z k l * B w l k)))"
    by (simp only: sum_distrib_right)
  also have "\<dots> = (\<Sum>y<p. \<Sum>i<d. \<Sum>j<d. \<Sum>z<p. \<Sum>k<d. \<Sum>l<d.
            B x i j * B y j i * P y z * B z k l * B w l k)"
    by (simp only: sum_distrib_left mult.assoc)
  finally have "(\<Sum>y<p. \<Sum>i<d. \<Sum>j<d. \<Sum>z<p. \<Sum>k<d. \<Sum>l<d.
            B x i j * B y j i * P y z * B z k l * B w l k)
      = (\<Sum>y<p. (\<Sum>i<d. \<Sum>j<d. B x i j * B y j i)
            * (\<Sum>z<p. P y z * (\<Sum>k<d. \<Sum>l<d. B z k l * B w l k)))" by (rule sym)
  also have "\<dots> = (\<Sum>y<p. (if x = y then 1 else 0) * (\<Sum>z<p. P y z * (if z = w then 1 else 0)))"
  proof (intro sum.cong refl)
    fix y assume "y \<in> {..<p}"
    then have y: "y < p" by simp
    have "(\<Sum>z<p. P y z * (\<Sum>k<d. \<Sum>l<d. B z k l * B w l k))
        = (\<Sum>z<p. P y z * (if z = w then 1 else 0))"
      by (intro sum.cong refl) (simp add: g assms(3))
    then show "(\<Sum>i<d. \<Sum>j<d. B x i j * B y j i)
            * (\<Sum>z<p. P y z * (\<Sum>k<d. \<Sum>l<d. B z k l * B w l k))
        = (if x = y then 1 else 0) * (\<Sum>z<p. P y z * (if z = w then 1 else 0))"
      by (simp only: g[OF assms(2) y])
  qed
  also have "\<dots> = (\<Sum>y<p. (if x = y then 1 else 0) * P y w)"
    by (simp only: sum_delta_right[OF assms(3)])
  also have "\<dots> = 1 * P x w"
    by (rule sum_delta_left[OF assms(2)])
  finally show ?thesis by simp
qed

lemma ptm_lookup_of_real:
  assumes "length es = p * p" "y < p" "z < p"
  shows "lookup (tmap complex_of_real (Tensor [p, p] es)) [y, z]
       = complex_of_real (lookup (Tensor [p, p] es) [y, z])"
proof -
  have v: "list_all2 (<) [y, z] [p, p]" using assms by simp
  from flat_index_less[OF v] map2_bcast_valid[OF v]
  have "flat_index (dims (Tensor [p, p] es)) (map2 bcast (dims (Tensor [p, p] es)) [y, z])
      < length (elems (Tensor [p, p] es))"
    by (simp add: assms(1))
  from lookup_tmap[OF this] show ?thesis .
qed

lemma ptm_convert_basis_same:
  assumes "basis_ok d b" "hermitian_basis d b" "orthonormal_basis d b"
    and "dims ptm = [dim_pauli b, dim_pauli b]"
    and "length (elems ptm) = dim_pauli b * dim_pauli b"
  shows "ptm_convert_basis ptm [b] [b] [b] [b] = Inr ptm"
proof -
  let ?p = "dim_pauli b"
  let ?V = "vectors b"
  let ?P = "tmap complex_of_real (Tensor [?p, ?p] (elems ptm))"
  let ?ops = "[(?V, [23, 8, 9]), (?V, [24, 9, 8]), (?P, [24, 25]),
               (?V, [25, 10, 11]), (?V, [22, 11, 10::nat])]"
  let ?f = "\<lambda>l::nat. if l = 8 \<or> l = 9 \<or> l = 10 \<or> l = 11 then d else ?p"
  have dv: "dims ?V = [?p, d, d]" using assms(1) by (simp add: basis_ok_def)
  have ax: "axes ?ops = [(23, ?p), (8, d), (9, d), (24, ?p), (9, d), (8, d), (24, ?p), (25, ?p),
                         (25, ?p), (10, d), (11, d), (22, ?p), (11, d), (10, d)]"
    by (simp add: axes_def dv tmap_def)
  let ?summed = "filter (\<lambda>l. l \<notin> set [23, 22]) (sort (remdups (map fst (axes ?ops))))"
  have ev: "einsum ?ops [23, 22] =
     Inr (Tensor (map ?f [23, 22])
       (map (\<lambda>vals. esum (map (\<lambda>l. (l, ?f l)) ?summed) (term_of ?ops) (env_of [23, 22] vals))
            (indices (map ?f [23, 22]))))"
  proof (rule einsum_eval)
    fix l e assume "(l, e) \<in> set (axes ?ops)"
    then show "e = ?f l" unfolding ax by auto
  next
    fix l assume "l \<in> set (concat (map snd ?ops) @ [23, 22])"
    then show "l < einsum_symbols" by (auto simp: einsum_symbols_def)
  next
    fix t ls assume "(t, ls) \<in> set ?ops"
    then show "length ls = length (dims t)" by (auto simp: dv tmap_def)
  next
    show "distinct [23, 22::nat]" by simp
    show "set [23, 22] \<subseteq> fst ` set (axes ?ops)" unfolding ax by simp
  qed
  have gram: "(\<Sum>i<d. \<Sum>j<d. basis_op b u i j * basis_op b v j i) = (if u = v then 1 else 0)"
    if "u < ?p" "v < ?p" for u v
    by (rule gram_orthonormal[OF assms(2,3) that])
  have body: "Re (esum (map (\<lambda>l. (l, ?f l)) ?summed) (term_of ?ops) (env_of [23, 22] vals))
      = lookup ptm vals"
    if "vals \<in> set (indices [?p, ?p])" for vals
  proof -
    from length_in_indices[OF that] obtain x w where vals: "vals = [x, w]"
      by (cases vals; cases "tl vals") auto
    have "list_all2 (<) vals [?p, ?p]"
      using that indices_nth_inverse[of _ "[?p, ?p]"] by (metis in_set_conv_nth length_indices)
    then have xw: "x < ?p" "w < ?p" by (simp_all add: vals)
    have "esum (map (\<lambda>l. (l, ?f l)) ?summed) (term_of ?ops) (env_of [23, 22] vals)
        = esum (map (\<lambda>l. (l, ?f l)) [24, 8, 9, 25, 10, 11]) (term_of ?ops) (env_of [23, 22] vals)"
    proof (rule esum_reorder)
      show "distinct ?summed" by simp
      show "distinct [24, 8, 9, 25, 10, 11::nat]" by simp
      show "set ?summed = set [24, 8, 9, 25, 10, 11]" unfolding ax by auto
    qed
    also have "\<dots> = (\<Sum>y<?p. \<Sum>i<d. \<Sum>j<d. \<Sum>z<?p. \<Sum>k<d. \<Sum>l<d.
        basis_op b x i j * basis_op b y j i * lookup ?P [y, z] * basis_op b z k l * basis_op b w l k)"
      by (simp add: term_of_def vals env_of_2 basis_op_def mult.assoc)
    also have "\<dots> = (\<Sum>y<?p. \<Sum>i<d. \<Sum>j<d. \<Sum>z<?p. \<Sum>k<d. \<Sum>l<d.
        basis_op b x i j * basis_op b y j i * complex_of_real (lookup (Tensor [?p, ?p] (elems ptm)) [y, z])
          * basis_op b z k l * basis_op b w l k)"
      by (intro sum.cong refl) (simp add: ptm_lookup_of_real[OF assms(5)])
    also have "\<dots> = complex_of_real (lookup (Tensor [?p, ?p] (elems ptm)) [x, w])"
      by (rule convert_sum[OF gram xw]) 
    finally show ?thesis using assms(4) by (simp add: vals lookup_def)
  qed
  have t: "Tensor [?p, ?p] (elems ptm) = ptm" using assms(4) by (cases ptm) simp
  have rs: "reshape ptm [?p, ?p] = Inr (Tensor [?p, ?p] (elems ptm))"
    by (simp add: reshape_def assms(4))
  have "ptm_convert_basis ptm [b] [b] [b] [b]
      = (case einsum ?ops [23, 22] of Inl e \<Rightarrow> Inl e | Inr r \<Rightarrow> reshape (tmap Re r) [?p, ?p])"
    by (simp add: ptm_convert_basis_def bases_kron_def rs sym_values)
  also have "\<dots> = reshape (Tensor [?p, ?p]
       (map (\<lambda>vals. Re (esum (map (\<lambda>l. (l, ?f l)) ?summed) (term_of ?ops) (env_of [23, 22] vals)))
            (indices [?p, ?p]))) [?p, ?p]"
    unfolding ev by (simp add: tmap_def comp_def del: indices.simps)
  also have "\<dots> = reshape (Tensor [?p, ?p] (map (lookup ptm) (indices [?p, ?p]))) [?p, ?p]"
    using body by (simp cong: map_cong del: indices.simps)
  also have "\<dots> = Inr (Tensor [?p, ?p] (map (lookup ptm) (indices [?p, ?p])))"
    by (simp add: reshape_def del: indices.simps)
  also have "Tensor [?p, ?p] (map (lookup ptm) (indices [?p, ?p])) = ptm"
    using map_lookup_indices[of ptm] assms(4,5) by (simp del: indices.simps)
  finally show ?thesis .
qed

lemma all_less_2': "(\<forall>i<2::nat. P i) \<longleftrightarrow> P 0 \<and> P (Suc 0)"
  by (auto simp: less_2_cases_iff)

lemma all_less_4: "(\<forall>i<4::nat. P i) \<longleftrightarrow> P 0 \<and> P (Suc 0) \<and> P 2 \<and> P 3"
proof -
  have "i < 4 \<longleftrightarrow> i = 0 \<or> i = Suc 0 \<or> i = 2 \<or> i = 3" for i :: nat by auto
  then show ?thesis by auto
qed

lemma gm_pauli: "dim_pauli gell_mann2 = 4"
  by (simp add: gell_mann2_def Let_def)

lemma gm_hermitian: "hermitian_basis 2 gell_mann2"
  by (simp add: hermitian_basis_def hermitian_def gm_pauli all_less_4 all_less_2' gm_table')

lemma gm_identity_first: "identity_first 2 gell_mann2"
  by (simp add: identity_first_def gm_pauli all_less_2' gm_table')

lemma gm_orthonormal: "orthonormal_basis 2 gell_mann2"
  by (simp add: orthonormal_basis_def gm_pauli all_less_4 tr_def mat_mul_def dagger_def
      sum_lessThan_2 gm_table' flip: of_real_mult)

lemma damp_trace_preserving: "trace_preserving 2 2 (kraus_op damp_kraus)"
  by (simp add: trace_preserving_def all_less_2' mat_mul_def dagger_def sum_lessThan_2 damp_table'
      flip: of_real_mult)

lemma pauli_x_ok: "kraus_ok 1 2 pauli_x"
  by (simp add: kraus_ok_def pauli_x_def)

subsection \<open>The identity channel and the diagonal Gell-Mann elements of a qutrit\<close>

lemma all_less_3': "(\<forall>i<3::nat. P i) \<longleftrightarrow> P 0 \<and> P (Suc 0) \<and> P 2"
proof -
  have "i < 3 \<longleftrightarrow> i = 0 \<or> i = Suc 0 \<or> i = 2" for i :: nat by auto
  then show ?thesis by auto
qed

lemma sum_lessThan_3: "(\<Sum>i<3::nat. f i) = f 0 + f (Suc 0) + (f 2 :: 'a :: comm_monoid_add)"
  by (simp add: eval_nat_numeral add.assoc)

lemma identity_kraus_op:
  assumes "i < D" "j < D"
  shows "kraus_op (identity_kraus D) 0 i j = (if i = j then 1 else 0)"
proof -
  have lt: "i * D + j < D * D"
  proof -
    have "i * D + j < i * D + D" using assms(2) by simp
    also have "\<dots> = Suc i * D" by simp
    also have "\<dots> \<le> D * D" using assms(1) by (metis Suc_leI mult_le_mono1)
    finally show ?thesis .
  qed
  have D1: "D = 1 \<Longrightarrow> i = 0 \<and> j = 0" using assms by simp
  have "kraus_op (identity_kraus D) 0 i j
      = map (\<lambda>k. if k div D = k mod D then 1 else 0) [0..<D * D] ! (i * D + j)"
    using D1 by (auto simp: kraus_op_def lookup_def identity_kraus_def bcast_def)
  also have "\<dots> = (if (i * D + j) div D = (i * D + j) mod D then 1 else 0)"
    using lt by simp
  also have "\<dots> = (if i = j then 1 else 0)" using assms by simp
  finally show ?thesis .
qed

lemma identity_kraus_trace_preserving:
  "trace_preserving 1 D (kraus_op (identity_kraus D))"
proof -
  have "mat_mul D (dagger (kraus_op (identity_kraus D) 0)) (kraus_op (identity_kraus D) 0) i j
      = (if i = j then 1 else 0)" if "i < D" "j < D" for i j
  proof -
    have "mat_mul D (dagger (kraus_op (identity_kraus D) 0)) (kraus_op (identity_kraus D) 0) i j
        = (\<Sum>k<D. cnj (kraus_op (identity_kraus D) 0 k i) * kraus_op (identity_kraus D) 0 k j)"
      by (simp add: mat_mul_def dagger_def)
    also have "\<dots> = (\<Sum>k<D. if k = i then (if i = j then 1 else 0) else 0)"
      by (rule sum.cong[OF refl]) (simp add: identity_kraus_op that)
    also have "\<dots> = (if i = j then 1 else 0)" using that(1) by simp
    finally show ?thesis .
  qed
  then show ?thesis by (simp add: trace_preserving_def)
qed

lemma qutrit_gm_diag_table:
  "basis_op qutrit_gm_diag 0 0 0 = complex_of_real (1 / sqrt 3)"
  "basis_op qutrit_gm_diag 0 0 (Suc 0) = 0" "basis_op qutrit_gm_diag 0 0 2 = 0"
  "basis_op qutrit_gm_diag 0 (Suc 0) 0 = 0"
  "basis_op qutrit_gm_diag 0 (Suc 0) (Suc 0) = complex_of_real (1 / sqrt 3)"
  "basis_op qutrit_gm_diag 0 (Suc 0) 2 = 0"
  "basis_op qutrit_gm_diag 0 2 0 = 0" "basis_op qutrit_gm_diag 0 2 (Suc 0) = 0"
  "basis_op qutrit_gm_diag 0 2 2 = complex_of_real (1 / sqrt 3)"
  "basis_op qutrit_gm_diag (Suc 0) 0 0 = complex_of_real (1 / sqrt 2)"
  "basis_op qutrit_gm_diag (Suc 0) 0 (Suc 0) = 0" "basis_op qutrit_gm_diag (Suc 0) 0 2 = 0"
  "basis_op qutrit_gm_diag (Suc 0) (Suc 0) 0 = 0"
  "basis_op qutrit_gm_diag (Suc 0) (Suc 0) (Suc 0) = - complex_of_real (1 / sqrt 2)"
  "basis_op qutrit_gm_diag (Suc 0) (Suc 0) 2 = 0"
  "basis_op qutrit_gm_diag (Suc 0) 2 0 = 0" "basis_op qutrit_gm_diag (Suc 0) 2 (Suc 0) = 0"
  "basis_op qutrit_gm_diag (Suc 0) 2 2 = 0"
  "basis_op qutrit_gm_diag 2 0 0 = complex_of_real (1 / sqrt 6)"
  "basis_op qutrit_gm_diag 2 0 (Suc 0) = 0" "basis_op qutrit_gm_diag 2 0 2 = 0"
  "basis_op qutrit_gm_diag 2 (Suc 0) 0 = 0"
  "basis_op qutrit_gm_diag 2 (Suc 0) (Suc 0) = complex_of_real (1 / sqrt 6)"
  "basis_op qutrit_gm_diag 2 (Suc 0) 2 = 0"
  "basis_op qutrit_gm_diag 2 2 0 = 0" "basis_op qutrit_gm_diag 2 2 (Suc 0) = 0"
  "basis_op qutrit_gm_diag 2 2 2 = - 2 * complex_of_real (1 / sqrt 6)"
  by (simp_all add: basis_op_def lookup_def bcast_def qutrit_gm_diag_def Let_def eval_nat_numeral)

lemma qutrit_gm_diag_pauli: "dim_pauli qutrit_gm_diag = 3"
  by (simp add: qutrit_gm_diag_def Let_def)

lemma qutrit_gm_diag_identity_first: "identity_first 3 qutrit_gm_diag"
  by (simp add: identity_first_def qutrit_gm_diag_pauli all_less_3' qutrit_gm_diag_table)

lemma qutrit_gm_diag_orthonormal: "orthonormal_basis 3 qutrit_gm_diag"
  by (simp add: orthonormal_basis_def qutrit_gm_diag_pauli all_less_3' tr_def mat_mul_def
      dagger_def sum_lessThan_3 qutrit_gm_diag_table flip: of_real_mult)

lemma qutrit_gm_diag_ok: "basis_ok 3 qutrit_gm_diag"
  by (simp add: basis_ok_def qutrit_gm_diag_def Let_def)

lemma dims_identity_kraus: "dims (identity_kraus D) = [1, D, D]"
  by (simp add: identity_kraus_def)

subsection \<open>The contraction\<close>

text \<open>
  Claim C1, as amended. \<open>kraus_to_ptm\<close> takes the Hilbert dimension of every subsystem
  from the first input basis, and NumPy's einsum takes labels below 52 only. So: for
  \<open>n\<close> subsystems, \<open>1 \<le> n\<close> and \<open>6 n < 52\<close>, whose bases all have Hilbert dimension \<open>d\<close>
  and vectors of shape (dim_pauli, d, d), and a stack of \<open>m\<close> Kraus operators of side
  \<open>d ^ n\<close>, \<open>kraus_to_ptm\<close> returns a real tensor of shape
  \<open>(out\<^sub>1, \<dots>, out\<^sub>n, in\<^sub>1, \<dots>, in\<^sub>n)\<close> whose entry at \<open>(x; y)\<close> is the real part of the sum
  over \<open>z\<close> of \<open>Tr(B_out[x] K\<^sub>z B_in[y] K\<^sub>z\<^sup>\<dagger>)\<close>; when the basis elements are Hermitian,
  as the data model says, the sum is real and the entry is the sum itself.
\<close>

theorem kraus_to_ptm_contraction:
  assumes "length bases_in = n" "length bases_out = n" "0 < n" "6 * n < einsum_symbols"
    and "\<forall>b \<in> set bases_in. basis_ok d b" "\<forall>b \<in> set bases_out. basis_ok d b"
    and "kraus_ok m (d ^ n) kraus"
    and "list_all2 (<) x (map dim_pauli bases_out)" "list_all2 (<) y (map dim_pauli bases_in)"
  shows "\<exists>ptm. kraus_to_ptm kraus bases_in bases_out = Inr ptm
      \<and> dims ptm = map dim_pauli bases_out @ map dim_pauli bases_in
      \<and> lookup ptm (x @ y)
          = Re (ptm_sum m (d ^ n) (tensor_op d bases_out x) (kraus_op kraus) (tensor_op d bases_in y))
      \<and> ((\<forall>b \<in> set bases_in \<union> set bases_out. hermitian_basis d b) \<longrightarrow>
           complex_of_real (lookup ptm (x @ y))
             = ptm_sum m (d ^ n) (tensor_op d bases_out x) (kraus_op kraus) (tensor_op d bases_in y))"
proof -
  note ev = kraus_to_ptm_eval[OF assms(1,2,3,5,6,7,4)]
  then obtain ptm where ptm: "kraus_to_ptm kraus bases_in bases_out = Inr ptm"
    and dp: "dims ptm = map dim_pauli bases_out @ map dim_pauli bases_in" by simp
  note en = kraus_to_ptm_entry[OF assms(1,2,3,5,6,7,4,8,9) ptm]
  have "complex_of_real (lookup ptm (x @ y))
      = ptm_sum m (d ^ n) (tensor_op d bases_out x) (kraus_op kraus) (tensor_op d bases_in y)"
    if h: "\<forall>b \<in> set bases_in \<union> set bases_out. hermitian_basis d b"
  proof -
    have lx: "length x = n" and ly: "length y = n"
      using assms(1,2,8,9) by (auto dest: list_all2_lengthD)
    have "hermitian d (basis_op (bases_out ! i) (x ! i))" if "i < n" for i
    proof -
      have "x ! i < dim_pauli (bases_out ! i)"
        using assms(8) that assms(2) lx by (auto simp: list_all2_conv_all_nth)
      moreover have "bases_out ! i \<in> set bases_out" using that assms(2) by simp
      ultimately show ?thesis using h by (auto simp: hermitian_basis_def)
    qed
    then have ho: "hermitian (d ^ n) (tensor_op d bases_out x)"
      by (rule hermitian_tensor_op[OF assms(2) lx])
    have "hermitian d (basis_op (bases_in ! i) (y ! i))" if "i < n" for i
    proof -
      have "y ! i < dim_pauli (bases_in ! i)"
        using assms(9) that assms(1) ly by (auto simp: list_all2_conv_all_nth)
      moreover have "bases_in ! i \<in> set bases_in" using that assms(1) by simp
      ultimately show ?thesis using h by (auto simp: hermitian_basis_def)
    qed
    then have hi: "hermitian (d ^ n) (tensor_op d bases_in y)"
      by (rule hermitian_tensor_op[OF assms(1) ly])
    show ?thesis unfolding en by (rule ptm_sum_real[OF ho hi])
  qed
  with ptm dp en show ?thesis by blast
qed

theorem kraus_to_ptm_contraction_witness:
  "basis_ok 2 qubit_diag \<and> kraus_ok 1 (2 ^ 1) (identity_kraus 2) \<and> hermitian_basis 2 qubit_diag
   \<and> (\<exists>ptm. kraus_to_ptm (identity_kraus 2) [qubit_diag] [qubit_diag] = Inr ptm
        \<and> dims ptm = [2, 2]
        \<and> complex_of_real (lookup ptm [0, 1])
            = ptm_sum 1 2 (tensor_op 2 [qubit_diag] [0]) (kraus_op (identity_kraus 2))
                (tensor_op 2 [qubit_diag] [1]))"
proof -
  have k: "kraus_ok 1 (2 ^ 1) (identity_kraus 2)" using identity_kraus_ok[of 2] by simp
  have h: "\<forall>b \<in> set [qubit_diag] \<union> set [qubit_diag]. hermitian_basis 2 b"
    using qubit_diag_hermitian by simp
  have b: "\<forall>b \<in> set [qubit_diag]. basis_ok 2 b" using qubit_diag_ok by simp
  have x: "list_all2 (<) [0] (map dim_pauli [qubit_diag])"
    and y: "list_all2 (<) [1] (map dim_pauli [qubit_diag])" by (simp_all add: qubit_diag_def)
  have s: "6 * 1 < einsum_symbols" by (simp add: einsum_symbols_def)
  from kraus_to_ptm_contraction[OF _ _ _ s b b k x y] h
  obtain ptm where "kraus_to_ptm (identity_kraus 2) [qubit_diag] [qubit_diag] = Inr ptm"
    "dims ptm = map dim_pauli [qubit_diag] @ map dim_pauli [qubit_diag]"
    "complex_of_real (lookup ptm ([0] @ [1]))
       = ptm_sum 1 (2 ^ 1) (tensor_op 2 [qubit_diag] [0]) (kraus_op (identity_kraus 2))
           (tensor_op 2 [qubit_diag] [1])"
    by auto
  then show ?thesis using qubit_diag_ok k qubit_diag_hermitian
    by (auto simp: qubit_diag_def)
qed

text \<open>
  The claim as stated, for every tuple of bases, fails: on a qubit and a qutrit with a Kraus
  operator of side 6 the reshape to \<open>(1, 2, 2, 2, 2)\<close> raises, and on nine subsystems the
  label \<open>6 * 9 = 54\<close> is no label of einsum.
\<close>

theorem kraus_to_ptm_contraction_counterexample:
  "kraus_to_ptm (identity_kraus 6) [qubit_diag, qutrit_diag] [qubit_diag, qutrit_diag]
     = Inl (ValueError ''cannot reshape array'')
   \<and> kraus_to_ptm (identity_kraus 1) (replicate 9 trivial_basis) (replicate 9 trivial_basis)
     = Inl IndexError"
proof -
  have "kraus_to_ptm (identity_kraus 6) [qubit_diag, qutrit_diag] [qubit_diag, qutrit_diag]
     = Inl (ValueError ''cannot reshape array'')"
    by (simp add: kraus_to_ptm_def identity_kraus_def qubit_diag_def reshape_def)
  moreover have "kraus_to_ptm (identity_kraus 1) (replicate 9 trivial_basis) (replicate 9 trivial_basis)
     = Inl IndexError"
    using kraus_to_ptm_label_overflow[of trivial_basis "replicate 8 trivial_basis" 9
          "replicate 9 trivial_basis" "identity_kraus 1" 1 "[1, 1]"]
    by (simp add: identity_kraus_def trivial_basis_def einsum_symbols_def eval_nat_numeral)
  ultimately show ?thesis by blast
qed

subsection \<open>Identity basis conversion\<close>

text \<open>
  Claim C2. Let the elements of the basis \<open>B\<close> be Hermitian and orthonormal, as the data
  model says of every basis (a full basis, with \<open>dim_pauli = dim_hilbert\<^sup>2\<close>, is one), and
  let \<open>U\<close> be a stack of Kraus operators of the side of \<open>B\<close> (a unitary is a stack of
  one). Then \<open>ptm_convert_basis\<close> from \<open>((B,), (B,))\<close> to \<open>((B,), (B,))\<close> returns the PTM
  \<open>kraus_to_ptm(U, (B,), (B,))\<close> as it is: in exact arithmetic the two tensors are equal.
\<close>

theorem ptm_convert_basis_identity:
  assumes "basis_ok d b" "hermitian_basis d b" "orthonormal_basis d b" "kraus_ok m d kraus"
  shows "\<exists>ptm. kraus_to_ptm kraus [b] [b] = Inr ptm
         \<and> ptm_convert_basis ptm [b] [b] [b] [b] = Inr ptm"
proof -
  have k: "kraus_ok m (d ^ 1) kraus" using assms(4) by simp
  have bb: "\<forall>b' \<in> set [b]. basis_ok d b'" using assms(1) by simp
  have s: "6 * 1 < einsum_symbols" by (simp add: einsum_symbols_def)
  have ev: "kraus_to_ptm kraus [b] [b]
      = Inr (Tensor (map dim_pauli [b] @ map dim_pauli [b])
       (map (\<lambda>vals. Re (ptm_sum m (d ^ 1) (tensor_op d [b] (take 1 vals)) (kraus_op kraus)
                           (tensor_op d [b] (drop 1 vals))))
            (indices (map dim_pauli [b] @ map dim_pauli [b]))))"
    by (rule kraus_to_ptm_eval[OF _ _ _ bb bb k s]) simp_all
  then obtain ptm where ptm: "kraus_to_ptm kraus [b] [b] = Inr ptm"
    and dp: "dims ptm = [dim_pauli b, dim_pauli b]"
    and lp: "length (elems ptm) = dim_pauli b * dim_pauli b"
    by (simp add: length_indices del: indices.simps)
  from ptm ptm_convert_basis_same[OF assms(1,2,3) dp lp] show ?thesis by blast
qed

theorem ptm_convert_basis_identity_witness:
  "basis_ok 2 gell_mann2 \<and> hermitian_basis 2 gell_mann2 \<and> orthonormal_basis 2 gell_mann2
   \<and> kraus_ok 1 2 pauli_x
   \<and> (\<exists>ptm. kraus_to_ptm pauli_x [gell_mann2] [gell_mann2] = Inr ptm
         \<and> ptm_convert_basis ptm [gell_mann2] [gell_mann2] [gell_mann2] [gell_mann2] = Inr ptm)"
  using ptm_convert_basis_identity[OF gm_ok gm_hermitian gm_orthonormal pauli_x_ok]
    gm_ok gm_hermitian gm_orthonormal pauli_x_ok by blast

subsection \<open>Trace preservation\<close>

text \<open>
  Claim C3, as amended. \<open>kraus_to_ptm\<close> computes a PTM for subsystems of one Hilbert
  dimension, and for at most eight of them (the labels of einsum are below 52). So: let
  there be \<open>n\<close> subsystems, \<open>1 \<le> n\<close> and \<open>6 n < 52\<close>, whose bases all have Hilbert
  dimension \<open>d\<close>; let the Kraus stack, of side \<open>d ^ n\<close>, be trace preserving (the sum of
  \<open>K\<^sub>z\<^sup>\<dagger> K\<^sub>z\<close> is the identity); let every basis have the identity divided by \<open>sqrt d\<close>
  as its first element, and let the input bases be orthonormal, as the data model says of
  every basis. Then \<open>kraus_to_ptm\<close> returns a PTM whose entry at \<open>(0, \<dots>, 0; y)\<close> is 1
  when \<open>y\<close> is \<open>(0, \<dots>, 0)\<close> and 0 otherwise: the first row of the PTM flattened to a
  matrix, which is the first \<open>in\<^sub>1 \<dots> in\<^sub>n\<close> elements of the tensor, is \<open>(1, 0, \<dots>, 0)\<close>.
\<close>

theorem trace_preserving_first_row:
  assumes "length bases_in = n" "length bases_out = n" "0 < n" "6 * n < einsum_symbols" "0 < d"
    and "\<forall>b \<in> set bases_in. basis_ok d b \<and> identity_first d b \<and> orthonormal_basis d b"
    and "\<forall>b \<in> set bases_out. basis_ok d b \<and> identity_first d b"
    and "kraus_ok m (d ^ n) kraus" "trace_preserving m (d ^ n) (kraus_op kraus)"
  shows "\<exists>ptm. kraus_to_ptm kraus bases_in bases_out = Inr ptm
      \<and> (\<forall>y. list_all2 (<) y (map dim_pauli bases_in) \<longrightarrow>
            lookup ptm (replicate n 0 @ y) = (if y = replicate n 0 then 1 else 0))
      \<and> take (prod_list (map dim_pauli bases_in)) (elems ptm)
            = 1 # replicate (prod_list (map dim_pauli bases_in) - 1) 0"
proof -
  let ?po = "map dim_pauli bases_out" and ?pi = "map dim_pauli bases_in"
  let ?F = "\<lambda>vals. Re (ptm_sum m (d ^ n) (tensor_op d bases_out (take n vals)) (kraus_op kraus)
                           (tensor_op d bases_in (drop n vals)))"
  have bi: "\<forall>b \<in> set bases_in. basis_ok d b" and bo: "\<forall>b \<in> set bases_out. basis_ok d b"
    and io: "\<forall>b \<in> set bases_out. identity_first d b"
    and ii: "\<forall>b \<in> set bases_in. identity_first d b \<and> orthonormal_basis d b"
    using assms(6,7) by auto
  have ev: "kraus_to_ptm kraus bases_in bases_out = Inr (Tensor (?po @ ?pi) (map ?F (indices (?po @ ?pi))))"
    by (rule kraus_to_ptm_eval[OF assms(1,2,3) bi bo assms(8,4)])
  have Fy: "?F (replicate n 0 @ y) = (if y = replicate n 0 then 1 else 0)"
    if "list_all2 (<) y ?pi" for y
  proof -
    have "length y = n" using that assms(1) by (auto dest: list_all2_lengthD)
    then have "?F (replicate n 0 @ y)
        = Re (ptm_sum m (d ^ n) (tensor_op d bases_out (replicate n 0)) (kraus_op kraus)
               (tensor_op d bases_in y))" by simp
    also have "\<dots> = (if y = replicate n 0 then 1 else 0)"
      unfolding first_row_entry[OF assms(1,2,5) io ii assms(9) that] by simp
    finally show ?thesis .
  qed
  have ppo: "\<forall>p \<in> set ?po. 0 < p" using io by (auto simp: identity_first_def)
  have ppi: "\<forall>p \<in> set ?pi. 0 < p" using ii by (auto simp: identity_first_def)
  have zo: "list_all2 (<) (replicate n 0) ?po"
    using zeros_valid[OF ppo] assms(2) by simp
  have 1: "lookup (Tensor (?po @ ?pi) (map ?F (indices (?po @ ?pi)))) (replicate n 0 @ y)
      = (if y = replicate n 0 then 1 else 0)" if "list_all2 (<) y ?pi" for y
  proof -
    have "list_all2 (<) (replicate n 0 @ y) (?po @ ?pi)" using zo that by (rule list_all2_appendI)
    from lookup_Tensor_indices[OF this, of ?F] Fy[OF that] show ?thesis by simp
  qed
  have 2: "take (prod_list ?pi) (map ?F (indices (?po @ ?pi))) = 1 # replicate (prod_list ?pi - 1) 0"
    using Fy assms(1,2) by (intro first_row_list[OF ppo ppi]) simp
  from ev 1 2 show ?thesis by simp
qed

theorem trace_preserving_first_row_witness:
  "trace_preserving 2 (2 ^ 1) (kraus_op damp_kraus) \<and> identity_first 2 gell_mann2
   \<and> orthonormal_basis 2 gell_mann2
   \<and> (\<exists>ptm. kraus_to_ptm damp_kraus [gell_mann2] [gell_mann2] = Inr ptm
      \<and> lookup ptm [0, 0] = 1 \<and> lookup ptm [0, 3] = 0
      \<and> take 4 (elems ptm) = [1, 0, 0, 0])"
proof -
  have tp: "trace_preserving 2 (2 ^ 1) (kraus_op damp_kraus)" using damp_trace_preserving by simp
  have k: "kraus_ok 2 (2 ^ 1) damp_kraus" using damp_ok by simp
  have bi: "\<forall>b \<in> set [gell_mann2]. basis_ok 2 b \<and> identity_first 2 b \<and> orthonormal_basis 2 b"
    using gm_ok gm_identity_first gm_orthonormal by simp
  have bo: "\<forall>b \<in> set [gell_mann2]. basis_ok 2 b \<and> identity_first 2 b"
    using gm_ok gm_identity_first by simp
  have s: "6 * 1 < einsum_symbols" by (simp add: einsum_symbols_def)
  from trace_preserving_first_row[OF _ _ _ s _ bi bo k tp]
  obtain ptm where p: "kraus_to_ptm damp_kraus [gell_mann2] [gell_mann2] = Inr ptm"
    and r: "\<forall>y. list_all2 (<) y (map dim_pauli [gell_mann2]) \<longrightarrow>
            lookup ptm (replicate 1 0 @ y) = (if y = replicate 1 0 then 1 else 0)"
    and t: "take (prod_list (map dim_pauli [gell_mann2])) (elems ptm)
            = 1 # replicate (prod_list (map dim_pauli [gell_mann2]) - 1) 0"
    by auto
  from r[rule_format, of "[0]"] have "lookup ptm [0, 0] = 1" by (simp add: gm_pauli)
  moreover from r[rule_format, of "[3]"] have "lookup ptm [0, 3] = 0" by (simp add: gm_pauli)
  moreover from t have "take 4 (elems ptm) = [1, 0, 0, 0]"
    by (simp add: gm_pauli eval_nat_numeral)
  ultimately show ?thesis using p tp gm_identity_first gm_orthonormal by blast
qed

text \<open>
  The claim as stated, for every trace-preserving Kraus set, fails where \<open>kraus_to_ptm\<close>
  computes no PTM. The identity channel on a qubit and a qutrit is trace preserving, its
  bases have the normalized identity first and are orthonormal, and its Kraus operator has
  the side 6 of the product space: the reshape to \<open>(1, 2, 2, 2, 2)\<close> raises. The identity
  channel on nine qubits in the Gell-Mann basis raises as well: the label \<open>6 * 9 = 54\<close> is
  no label of einsum.
\<close>

theorem trace_preserving_first_row_counterexample:
  "trace_preserving 1 (prod_list (map dim_hilbert [gell_mann2, qutrit_gm_diag]))
       (kraus_op (identity_kraus 6))
   \<and> kraus_ok 1 (prod_list (map dim_hilbert [gell_mann2, qutrit_gm_diag])) (identity_kraus 6)
   \<and> basis_ok 2 gell_mann2 \<and> identity_first 2 gell_mann2 \<and> orthonormal_basis 2 gell_mann2
   \<and> basis_ok 3 qutrit_gm_diag \<and> identity_first 3 qutrit_gm_diag
   \<and> orthonormal_basis 3 qutrit_gm_diag
   \<and> kraus_to_ptm (identity_kraus 6) [gell_mann2, qutrit_gm_diag] [gell_mann2, qutrit_gm_diag]
       = Inl (ValueError ''cannot reshape array'')
   \<and> trace_preserving 1 (prod_list (map dim_hilbert (replicate 9 gell_mann2)))
       (kraus_op (identity_kraus 512))
   \<and> kraus_ok 1 (prod_list (map dim_hilbert (replicate 9 gell_mann2))) (identity_kraus 512)
   \<and> kraus_to_ptm (identity_kraus 512) (replicate 9 gell_mann2) (replicate 9 gell_mann2)
       = Inl IndexError"
proof -
  have h2: "dim_hilbert gell_mann2 = 2" by (simp add: gell_mann2_def Let_def)
  have h3: "dim_hilbert qutrit_gm_diag = 3" by (simp add: qutrit_gm_diag_def Let_def)
  have p6: "prod_list (map dim_hilbert [gell_mann2, qutrit_gm_diag]) = 6" by (simp add: h2 h3)
  have p512: "prod_list (map dim_hilbert (replicate 9 gell_mann2)) = 512"
    by (simp add: h2 prod_list_replicate)
  have r: "kraus_to_ptm (identity_kraus 6) [gell_mann2, qutrit_gm_diag] [gell_mann2, qutrit_gm_diag]
       = Inl (ValueError ''cannot reshape array'')"
    by (simp add: kraus_to_ptm_def dims_identity_kraus h2 reshape_def)
  have r9: "replicate 9 gell_mann2 = gell_mann2 # replicate 8 gell_mann2"
    by (simp add: eval_nat_numeral)
  have "kraus_to_ptm (identity_kraus 512) (gell_mann2 # replicate 8 gell_mann2)
          (replicate 9 gell_mann2) = Inl IndexError"
    by (rule kraus_to_ptm_label_overflow[where n = 9 and m = 1 and ds = "[512, 512]"])
      (simp_all add: dims_identity_kraus h2 einsum_symbols_def)
  then have i: "kraus_to_ptm (identity_kraus 512) (replicate 9 gell_mann2) (replicate 9 gell_mann2)
       = Inl IndexError"
    by (simp only: r9[symmetric])
  show ?thesis
    unfolding p6 p512
    using identity_kraus_trace_preserving[of 6] identity_kraus_trace_preserving[of 512]
      identity_kraus_ok[of 6] identity_kraus_ok[of 512]
      gm_ok gm_identity_first gm_orthonormal
      qutrit_gm_diag_ok qutrit_gm_diag_identity_first qutrit_gm_diag_orthonormal r i
    by blast
qed

subsection \<open>Amplitude damping in the Gell-Mann basis\<close>

text \<open>
  Claim C4. \<open>amp_damping(0.5)\<close> is the operation of the Kraus stack
  \<open>[[1, 0], [0, sqrt 0.5]], [[0, sqrt 0.5], [0, 0]]\<close>, and its PTM in the Gell-Mann basis of
  a qubit, by \<open>single_kraus_to_ptm\<close> as well as by \<open>kraus_to_ptm\<close>, is the matrix
  \<open>[[1, 0, 0, 0], [0, sqrt 0.5, 0, 0], [0, 0, sqrt 0.5, 0], [0.5, 0, 0, 0.5]]\<close>.
\<close>

theorem amp_damping_gell_mann_ptm:
  "amp_damping bases1_default (Some (1 / 2)) None None = Inr (from_kraus damp_kraus bases1_default)
   \<and> single_kraus_to_ptm damp_kraus gell_mann2 gell_mann2
       = Inr (Tensor [4, 4] [1, 0, 0, 0,
                             0, sqrt (1 / 2), 0, 0,
                             0, 0, sqrt (1 / 2), 0,
                             1 / 2, 0, 0, 1 / 2])
   \<and> kraus_to_ptm damp_kraus [gell_mann2] [gell_mann2]
       = Inr (Tensor [4, 4] [1, 0, 0, 0,
                             0, sqrt (1 / 2), 0, 0,
                             0, 0, sqrt (1 / 2), 0,
                             1 / 2, 0, 0, 1 / 2])"
proof (intro conjI)
  show "amp_damping bases1_default (Some (1 / 2)) None None
      = Inr (from_kraus damp_kraus bases1_default)"
    by (simp add: amp_damping_def damp_kraus_def)
  have p: "dim_pauli gell_mann2 = 4" by (simp add: gell_mann2_def Let_def)
  show "single_kraus_to_ptm damp_kraus gell_mann2 gell_mann2
       = Inr (Tensor [4, 4] [1, 0, 0, 0,
                             0, sqrt (1 / 2), 0, 0,
                             0, 0, sqrt (1 / 2), 0,
                             1 / 2, 0, 0, 1 / 2])"
    unfolding single_kraus_to_ptm_eval[OF gm_ok gm_ok damp_ok] p indices_4_4
    by (simp add: damp_entries)
  have k: "kraus_ok 2 (2 ^ 1) damp_kraus" using damp_ok by simp
  have b: "\<forall>b \<in> set [gell_mann2]. basis_ok 2 b" using gm_ok by simp
  have s: "6 * 1 < einsum_symbols" by (simp add: einsum_symbols_def)
  have "kraus_to_ptm damp_kraus [gell_mann2] [gell_mann2]
      = Inr (Tensor (map dim_pauli [gell_mann2] @ map dim_pauli [gell_mann2])
       (map (\<lambda>vals. Re (ptm_sum 2 (2 ^ 1) (tensor_op 2 [gell_mann2] (take 1 vals)) (kraus_op damp_kraus)
                           (tensor_op 2 [gell_mann2] (drop 1 vals))))
            (indices (map dim_pauli [gell_mann2] @ map dim_pauli [gell_mann2]))))"
    by (rule kraus_to_ptm_eval[OF _ _ _ b b k s]) simp_all
  also have "indices (map dim_pauli [gell_mann2] @ map dim_pauli [gell_mann2]) = indices [4, 4]"
    by (simp only: p list.map append.simps)
  finally show "kraus_to_ptm damp_kraus [gell_mann2] [gell_mann2]
       = Inr (Tensor [4, 4] [1, 0, 0, 0,
                             0, sqrt (1 / 2), 0, 0,
                             0, 0, sqrt (1 / 2), 0,
                             1 / 2, 0, 0, 1 / 2])"
    unfolding indices_4_4 by (simp add: p tensor_op_single damp_entries)
qed

subsection \<open>Errors of \<open>kraus_to_ptm\<close>\<close>

text \<open>
  Claim C5, as amended. With at least one input basis, \<open>kraus_to_ptm\<close> raises a ValueError
  when the two tuples of bases differ in length; it raises a ValueError when a nonempty
  stack of square Kraus operators has a side other than \<open>dim ^ n\<close>, where \<open>dim\<close> is the
  Hilbert dimension of the first input basis and \<open>n\<close> the number of bases; and it returns a
  tensor when \<open>1 \<le> n\<close>, \<open>6 n < 52\<close>, all bases have Hilbert dimension \<open>d\<close> and vectors of
  shape (dim_pauli, d, d), and the Kraus operators have side \<open>d ^ n\<close>.
\<close>

theorem kraus_to_ptm_raises:
  "(bases_in \<noteq> [] \<and> length bases_in \<noteq> length bases_out \<longrightarrow>
      kraus_to_ptm kraus bases_in bases_out
        = Inl (ValueError ''Input and output bases must contain the same number of elements''))
   \<and> (bases_in \<noteq> [] \<and> length bases_in = length bases_out \<and> dims kraus = [m, D, D] \<and> 0 < m
        \<and> D \<noteq> dim_hilbert (hd bases_in) ^ length bases_in \<longrightarrow>
      kraus_to_ptm kraus bases_in bases_out = Inl (ValueError ''cannot reshape array''))
   \<and> (0 < length bases_in \<and> 6 * length bases_in < einsum_symbols
        \<and> length bases_out = length bases_in
        \<and> (\<forall>b \<in> set bases_in. basis_ok d b) \<and> (\<forall>b \<in> set bases_out. basis_ok d b)
        \<and> kraus_ok m (d ^ length bases_in) kraus \<longrightarrow>
      (\<exists>ptm. kraus_to_ptm kraus bases_in bases_out = Inr ptm))"
proof (intro conjI impI)
  assume "bases_in \<noteq> [] \<and> length bases_in \<noteq> length bases_out"
  then show "kraus_to_ptm kraus bases_in bases_out
        = Inl (ValueError ''Input and output bases must contain the same number of elements'')"
    by (cases bases_in) (auto simp: kraus_to_ptm_def)
next
  assume a: "bases_in \<noteq> [] \<and> length bases_in = length bases_out \<and> dims kraus = [m, D, D] \<and> 0 < m
        \<and> D \<noteq> dim_hilbert (hd bases_in) ^ length bases_in"
  then obtain b0 bs where b: "bases_in = b0 # bs" by (cases bases_in) auto
  define e where "e = dim_hilbert b0"
  define n where "n = length bases_in"
  have le: "length (b0 # bs) = n" "length bases_out = n" using a b by (simp_all add: n_def)
  have dk: "dims kraus = [m, D, D]" and m0: "0 < m" using a by simp_all
  have "hd bases_in = b0" using b by simp
  with a have ne: "D \<noteq> e ^ n" unfolding e_def n_def by blast
  have "e ^ (2 * n) = (e ^ n) * (e ^ n)" by (simp add: mult_2 power_add)
  with ne have "e ^ (2 * n) \<noteq> D * D" using square_eq_nat[of D "e ^ n"] by auto
  with m0 have "prod_list (m # replicate (2 * n) e) \<noteq> prod_list (dims kraus)"
    by (simp add: prod_list_replicate dk)
  then have "reshape kraus (m # replicate (2 * n) e) = Inl (ValueError ''cannot reshape array'')"
    by (simp add: reshape_def)
  then have "kraus_to_ptm kraus (b0 # bs) bases_out = Inl (ValueError ''cannot reshape array'')"
    unfolding kraus_to_ptm_def list.case Let_def le dk e_def[symmetric] by simp
  then show "kraus_to_ptm kraus bases_in bases_out = Inl (ValueError ''cannot reshape array'')"
    by (simp add: b)
next
  assume a: "0 < length bases_in \<and> 6 * length bases_in < einsum_symbols
        \<and> length bases_out = length bases_in
        \<and> (\<forall>b \<in> set bases_in. basis_ok d b) \<and> (\<forall>b \<in> set bases_out. basis_ok d b)
        \<and> kraus_ok m (d ^ length bases_in) kraus"
  then show "\<exists>ptm. kraus_to_ptm kraus bases_in bases_out = Inr ptm"
    using kraus_to_ptm_eval[of bases_in "length bases_in" bases_out d m kraus] by simp
qed

theorem kraus_to_ptm_raises_witness:
  "kraus_to_ptm (identity_kraus 2) [qubit_diag] []
     = Inl (ValueError ''Input and output bases must contain the same number of elements'')
   \<and> kraus_to_ptm (identity_kraus 3) [qubit_diag] [qubit_diag]
     = Inl (ValueError ''cannot reshape array'')
   \<and> (\<exists>ptm. kraus_to_ptm (identity_kraus 2) [qubit_diag] [qubit_diag] = Inr ptm)"
proof -
  have 1: "[qubit_diag] \<noteq> [] \<and> length [qubit_diag] \<noteq> length ([] :: basis list)" by simp
  have 2: "[qubit_diag] \<noteq> [] \<and> length [qubit_diag] = length [qubit_diag]
      \<and> dims (identity_kraus 3) = [1, 3, 3] \<and> 0 < (1::nat)
      \<and> 3 \<noteq> dim_hilbert (hd [qubit_diag]) ^ length [qubit_diag]"
    by (simp add: identity_kraus_def qubit_diag_def)
  have 3: "0 < length [qubit_diag] \<and> 6 * length [qubit_diag] < einsum_symbols
        \<and> length [qubit_diag] = length [qubit_diag]
        \<and> (\<forall>b \<in> set [qubit_diag]. basis_ok 2 b) \<and> (\<forall>b \<in> set [qubit_diag]. basis_ok 2 b)
        \<and> kraus_ok 1 (2 ^ length [qubit_diag]) (identity_kraus 2)"
    using qubit_diag_ok identity_kraus_ok[of 2] by (simp add: einsum_symbols_def)
  from kraus_to_ptm_raises[of "[qubit_diag]" "[]" "identity_kraus 2"] 1
  have a: "kraus_to_ptm (identity_kraus 2) [qubit_diag] []
     = Inl (ValueError ''Input and output bases must contain the same number of elements'')"
    by blast
  from kraus_to_ptm_raises[of "[qubit_diag]" "[qubit_diag]" "identity_kraus 3" 1 3] 2
  have b: "kraus_to_ptm (identity_kraus 3) [qubit_diag] [qubit_diag]
     = Inl (ValueError ''cannot reshape array'')"
    by blast
  from kraus_to_ptm_raises[of "[qubit_diag]" "[qubit_diag]" "identity_kraus 2" 1 _ 2] 3
  have c: "\<exists>ptm. kraus_to_ptm (identity_kraus 2) [qubit_diag] [qubit_diag] = Inr ptm"
    by blast
  from a b c show ?thesis by blast
qed

text \<open>
  The claim as stated fails where the two conditions hold and the call raises all the
  same: a qutrit and a qubit with a Kraus operator of side 6, the product of the Hilbert
  dimensions (the code compares with \<open>3 ^ 2\<close>), and ten subsystems of dimension 1.
\<close>

theorem kraus_to_ptm_raises_counterexample:
  "length [qutrit_diag, qubit_diag] = length [qutrit_diag, qubit_diag]
   \<and> dims (identity_kraus 6) = [1, prod_list (map dim_hilbert [qutrit_diag, qubit_diag]),
                                   prod_list (map dim_hilbert [qutrit_diag, qubit_diag])]
   \<and> kraus_to_ptm (identity_kraus 6) [qutrit_diag, qubit_diag] [qutrit_diag, qubit_diag]
       = Inl (ValueError ''cannot reshape array'')
   \<and> length (replicate 10 trivial_basis) = length (replicate 10 trivial_basis)
   \<and> dims (identity_kraus 1) = [1, prod_list (map dim_hilbert (replicate 10 trivial_basis)),
                                   prod_list (map dim_hilbert (replicate 10 trivial_basis))]
   \<and> kraus_to_ptm (identity_kraus 1) (replicate 10 trivial_basis) (replicate 10 trivial_basis)
       = Inl IndexError"
proof -
  have "kraus_to_ptm (identity_kraus 6) [qutrit_diag, qubit_diag] [qutrit_diag, qubit_diag]
       = Inl (ValueError ''cannot reshape array'')"
    by (simp add: kraus_to_ptm_def identity_kraus_def qutrit_diag_def reshape_def)
  moreover have "kraus_to_ptm (identity_kraus 1) (replicate 10 trivial_basis) (replicate 10 trivial_basis)
       = Inl IndexError"
    using kraus_to_ptm_label_overflow[of trivial_basis "replicate 9 trivial_basis" 10
          "replicate 10 trivial_basis" "identity_kraus 1" 1 "[1, 1]"]
    by (simp add: identity_kraus_def trivial_basis_def einsum_symbols_def eval_nat_numeral)
  moreover have "prod_list (map dim_hilbert (replicate 10 trivial_basis)) = 1"
    by (simp add: trivial_basis_def)
  ultimately show ?thesis
    by (simp add: identity_kraus_def qutrit_diag_def qubit_diag_def)
qed


end
